theory Spec2Isabelle
  imports Complex_Main "HOL-Library.Product_Lexorder" "HOL-Library.Multiset"
begin

section \<open>The flat record table\<close>

text \<open>
  One row of the table read from \<^verbatim>\<open>steam_top100_with_names.csv\<close>; the columns are those
  written by \<^verbatim>\<open>complete_scraper.py\<close>: appid, game_name, month, avg_players, peak_players.
  Strings are ASCII; \<^verbatim>\<open>avg_players\<close> is a float in the source and a real number here
  (a missing cell, NaN, compares false with every threshold, like any value below it,
  and is not modelled separately).
\<close>

record row =
  appid :: int
  game_name :: string
  month :: string
  avg_players :: real
  peak_players :: int

type_synonym dataframe = "row list"

section \<open>Dates: \<^verbatim>\<open>pd.to_datetime(..., format='%B %Y', errors='coerce')\<close>\<close>

text \<open>
  The library call used by \<^verbatim>\<open>clean_game_data\<close> (line 21) to order the rows. The label has
  to match, from its first to its last character, a full English month name (in any
  letter case), at least one white-space character and exactly four digits; the result is
  the first day of that month. Everything else is coerced to NaT, here \<open>None\<close>, and so is
  a date outside the range of the nanosecond timestamps of pandas 2 (1677-09-21 to
  2262-04-11). pandas 3 keeps such dates; the statements below use the parser only at
  labels of the year 2024 and at labels that name no month, where both agree.
\<close>

definition is_space :: "char \<Rightarrow> bool" where
  "is_space c = (c \<in> set [CHR '' '', CHR 0x09, CHR 0x0A, CHR 0x0B, CHR 0x0C, CHR 0x0D,
                           CHR 0x1C, CHR 0x1D, CHR 0x1E, CHR 0x1F])"

definition is_digit :: "char \<Rightarrow> bool" where
  "is_digit c = (c \<in> set ''0123456789'')"

definition digit_val :: "char \<Rightarrow> nat" where
  "digit_val c = (case map_of (zip ''0123456789'' [0, 1, 2, 3, 4, 5, 6, 7, 8, 9]) c of Some d \<Rightarrow> d | None \<Rightarrow> 0)"

definition digits_val :: "string \<Rightarrow> nat" where
  "digits_val ds = foldl (\<lambda>acc c. 10 * acc + digit_val c) 0 ds"

definition lower_char :: "char \<Rightarrow> char" where
  "lower_char c =
     (case map_of (zip ''ABCDEFGHIJKLMNOPQRSTUVWXYZ'' ''abcdefghijklmnopqrstuvwxyz'') c of
        Some d \<Rightarrow> d | None \<Rightarrow> c)"

definition month_names :: "(string \<times> nat) list" where
  "month_names =
     [(''january'', 1), (''february'', 2), (''march'', 3), (''april'', 4),
      (''may'', 5), (''june'', 6), (''july'', 7), (''august'', 8),
      (''september'', 9), (''october'', 10), (''november'', 11), (''december'', 12)]"

definition in_ns_bounds :: "nat \<times> nat \<Rightarrow> bool" where
  "in_ns_bounds d = ((1677, 10) \<le> d \<and> d \<le> (2262, 4))"

definition to_datetime :: "string \<Rightarrow> (nat \<times> nat) option" where
  "to_datetime s =
     (let name = takeWhile (\<lambda>c. \<not> is_space c) s;
          rest = dropWhile (\<lambda>c. \<not> is_space c) s;
          year = dropWhile is_space rest
      in case map_of month_names (map lower_char name) of
           None \<Rightarrow> None
         | Some mo \<Rightarrow>
             if rest \<noteq> [] \<and> length year = 4 \<and> list_all is_digit year
                \<and> in_ns_bounds (digits_val year, mo)
             then Some (digits_val year, mo)
             else None)"

definition date :: "row \<Rightarrow> (nat \<times> nat) option" where
  "date r = to_datetime (month r)"

section \<open>The Cleaner: \<^verbatim>\<open>clean_game_data\<close>\<close>

text \<open>
  \<^verbatim>\<open>game_data.sort_values('date').reset_index(drop=True)\<close>: the rows with a date in
  ascending order of the date, then the rows whose date is NaT, in the order they had.
  Rows with equal dates keep their relative order in this definition. The default sort
  of pandas (\<^verbatim>\<open>kind='quicksort'\<close>) does so in a table of up to sixteen dated rows; in
  a longer one it may return rows of equal date in another order. Where rows have
  pairwise distinct dates the order is the same for every sort, see
  \<open>possible_sort_unique\<close> below; what depends on the order of rows with equal dates is
  stated with \<open>possible_sort\<close>, which leaves that order open.
\<close>

definition sort_values :: "row list \<Rightarrow> row list" where
  "sort_values game_data =
     sort_key (\<lambda>r. the (date r)) (filter (\<lambda>r. date r \<noteq> None) game_data)
     @ filter (\<lambda>r. date r = None) game_data"

text \<open>
  The loop of lines 28 to 35 over the rows from position \<open>idx\<close> on, with
  \<open>consecutive_count = cnt\<close> on entry. \<open>Some s\<close> is the assignment
  \<^verbatim>\<open>meaningful_start = s\<close> followed by \<^verbatim>\<open>break\<close>; \<open>None\<close> is the loop running to
  the end with \<^verbatim>\<open>meaningful_start\<close> still \<^verbatim>\<open>None\<close> (the test
  \<^verbatim>\<open>meaningful_start is None\<close> of line 31 is therefore always true when reached).
\<close>

fun scan_rows :: "real \<Rightarrow> int \<Rightarrow> int \<Rightarrow> int \<Rightarrow> row list \<Rightarrow> int option" where
  "scan_rows min_avg_players min_consecutive_months idx consecutive_count [] = None"
| "scan_rows min_avg_players min_consecutive_months idx consecutive_count (r # rest) =
     (if avg_players r \<ge> min_avg_players then
        (if consecutive_count + 1 \<ge> min_consecutive_months
         then Some (max 0 (idx - min_consecutive_months + 1))
         else scan_rows min_avg_players min_consecutive_months (idx + 1)
                (consecutive_count + 1) rest)
      else scan_rows min_avg_players min_consecutive_months (idx + 1) 0 rest)"

definition meaningful_start :: "real \<Rightarrow> int \<Rightarrow> row list \<Rightarrow> int option" where
  "meaningful_start min_avg_players min_consecutive_months game_data =
     scan_rows min_avg_players min_consecutive_months 0 0 game_data"

text \<open>
  The body of the outer loop (lines 18 to 43) for the rows of one game name:
  sort, scan, and keep \<^verbatim>\<open>game_data.iloc[meaningful_start:]\<close> or everything.
\<close>

definition clean_one_game :: "real \<Rightarrow> int \<Rightarrow> row list \<Rightarrow> row list" where
  "clean_one_game min_avg_players min_consecutive_months rows =
     (let game_data = sort_values rows
      in case meaningful_start min_avg_players min_consecutive_months game_data of
           Some s \<Rightarrow> drop (nat s) game_data
         | None \<Rightarrow> game_data)"

text \<open>\<^verbatim>\<open>Series.unique()\<close>: the distinct values in order of first appearance.\<close>

fun unique :: "'a list \<Rightarrow> 'a list" where
  "unique [] = []"
| "unique (x # xs) = x # unique (filter (\<lambda>y. y \<noteq> x) xs)"

definition clean_game_data :: "real \<Rightarrow> int \<Rightarrow> dataframe \<Rightarrow> dataframe" where
  "clean_game_data min_avg_players min_consecutive_months df =
     (let cleaned_games =
            map (\<lambda>name. clean_one_game min_avg_players min_consecutive_months
                          (filter (\<lambda>r. game_name r = name) df))
                (unique (map game_name df))
      in if cleaned_games \<noteq> [] then concat cleaned_games else df)"

section \<open>The Cleaner's algorithm in the words of the specification\<close>

text \<open>
  The run-length counter of the specification, over the \<^verbatim>\<open>avg_players\<close> values of a
  series: it starts at \<open>c\<close>, goes up by one at a value that meets the threshold and back
  to zero at a value below it.
\<close>

definition run_counter :: "real \<Rightarrow> int \<Rightarrow> real list \<Rightarrow> int" where
  "run_counter t c vs = foldl (\<lambda>c v. if v \<ge> t then c + 1 else 0) c vs"

text \<open>
  The counter reaches \<open>m\<close> at position \<open>i\<close>: the observation at \<open>i\<close> meets the threshold
  (the counter is compared only after it has gone up) and the counter, after the
  observations \<open>0, \<dots>, i\<close>, is at least \<open>m\<close>. \<open>first_reach\<close>: position \<open>i\<close> is the first
  such position.
\<close>

definition reaches_at :: "real \<Rightarrow> int \<Rightarrow> real list \<Rightarrow> nat \<Rightarrow> bool" where
  "reaches_at t m vs i =
     (i < length vs \<and> vs ! i \<ge> t \<and> m \<le> run_counter t 0 (take (Suc i) vs))"

definition first_reach :: "real \<Rightarrow> int \<Rightarrow> real list \<Rightarrow> nat \<Rightarrow> bool" where
  "first_reach t m vs i = (reaches_at t m vs i \<and> \<not> list_ex (reaches_at t m vs) [0 ..< i])"

text \<open>
  A run of \<open>m\<close> consecutive observations that all meet the threshold exists somewhere in
  the series.
\<close>

definition has_run :: "real \<Rightarrow> int \<Rightarrow> real list \<Rightarrow> bool" where
  "has_run t m vs =
     list_ex (\<lambda>i. i + nat m \<le> length vs \<and> list_all (\<lambda>v. v \<ge> t) (take (nat m) (drop i vs)))
       [0 ..< Suc (length vs)]"

text \<open>
  A series is in chronological order: its dated rows are in ascending order of date and
  come before all its undated rows.
\<close>

definition chronological :: "row list \<Rightarrow> bool" where
  "chronological s =
     (sorted (map (\<lambda>r. the (date r)) (filter (\<lambda>r. date r \<noteq> None) s))
      \<and> s = filter (\<lambda>r. date r \<noteq> None) s @ filter (\<lambda>r. date r = None) s)"

text \<open>
  What line 22 can return whatever sort it uses: \<open>s\<close> has the rows of the frame, is in
  chronological order, and has the undated rows in the order they had. The order of rows
  with equal dates is left open. \<open>distinct_dates\<close>: no two dated rows of the series
  have the same date.
\<close>

definition possible_sort :: "row list \<Rightarrow> row list \<Rightarrow> bool" where
  "possible_sort game_data s =
     (mset s = mset game_data \<and> chronological s
      \<and> filter (\<lambda>r. date r = None) s = filter (\<lambda>r. date r = None) game_data)"

definition distinct_dates :: "row list \<Rightarrow> bool" where
  "distinct_dates rows =
     distinct (map (\<lambda>r. the (date r)) (filter (\<lambda>r. date r \<noteq> None) rows))"

text \<open>Lines 24 to 43 on a frame that is sorted already: the scan and the cut.\<close>

definition keep_from_start :: "real \<Rightarrow> int \<Rightarrow> row list \<Rightarrow> row list" where
  "keep_from_start min_avg_players min_consecutive_months game_data =
     (case meaningful_start min_avg_players min_consecutive_months game_data of
        Some s \<Rightarrow> drop (nat s) game_data
      | None \<Rightarrow> game_data)"

text \<open>
  The Cleaner as the specification words step 1 of its algorithm: rows whose label does
  not parse are left out of the threshold scan. It is compared with \<open>clean_one_game\<close>
  below.
\<close>

definition clean_excluding_undated :: "real \<Rightarrow> int \<Rightarrow> row list \<Rightarrow> row list" where
  "clean_excluding_undated min_avg_players min_consecutive_months rows =
     (let game_data = sort_values rows
      in case meaningful_start min_avg_players min_consecutive_months
                (filter (\<lambda>r. date r \<noteq> None) game_data) of
           Some s \<Rightarrow> drop (nat s) game_data
         | None \<Rightarrow> game_data)"

section \<open>Sample tables\<close>

text \<open>Rows as the scraper writes them, newest month first.\<close>

definition obs :: "int \<Rightarrow> string \<Rightarrow> string \<Rightarrow> real \<Rightarrow> row" where
  "obs a g mo v = \<lparr>appid = a, game_name = g, month = mo, avg_players = v, peak_players = 0\<rparr>"

definition sample_breakout :: "row list" where
  "sample_breakout =
     [obs 230410 ''Warframe'' ''Last 30 Days'' 900,
      obs 230410 ''Warframe'' ''May 2024'' 50,
      obs 230410 ''Warframe'' ''April 2024'' 800,
      obs 230410 ''Warframe'' ''March 2024'' 700,
      obs 230410 ''Warframe'' ''February 2024'' 600,
      obs 230410 ''Warframe'' ''January 2024'' 100]"

definition sample_eight_months :: "row list" where
  "sample_eight_months =
     [obs 570 ''Dota 2'' ''August 2024'' 900,
      obs 570 ''Dota 2'' ''July 2024'' 900,
      obs 570 ''Dota 2'' ''June 2024'' 800,
      obs 570 ''Dota 2'' ''May 2024'' 400,
      obs 570 ''Dota 2'' ''April 2024'' 700,
      obs 570 ''Dota 2'' ''March 2024'' 600,
      obs 570 ''Dota 2'' ''February 2024'' 0,
      obs 570 ''Dota 2'' ''January 2024'' 0]"

definition sample_no_run :: "row list" where
  "sample_no_run =
     [obs 730 ''Counter-Strike 2'' ''April 2024'' 200,
      obs 730 ''Counter-Strike 2'' ''March 2024'' 700,
      obs 730 ''Counter-Strike 2'' ''February 2024'' 100,
      obs 730 ''Counter-Strike 2'' ''January 2024'' 600]"

definition sample_two_months :: "row list" where
  "sample_two_months =
     [obs 730 ''Counter-Strike 2'' ''February 2024'' 600,
      obs 730 ''Counter-Strike 2'' ''January 2024'' 600]"

definition sample_rolling :: "row list" where
  "sample_rolling =
     [obs 236390 ''War Thunder'' ''Last 30 Days'' 600,
      obs 236390 ''War Thunder'' ''February 2024'' 600,
      obs 236390 ''War Thunder'' ''January 2024'' 0]"

definition sample_shared_name :: "row list" where
  "sample_shared_name =
     [obs 1 ''Arena'' ''March 2024'' 900,
      obs 1 ''Arena'' ''January 2024'' 0,
      obs 2 ''Arena'' ''April 2024'' 800,
      obs 2 ''Arena'' ''February 2024'' 0,
      obs 3 ''Other'' ''January 2024'' 10]"

definition sample_tied :: "row list" where
  "sample_tied =
     [obs 1 ''Arena'' ''May 2024'' 600,
      obs 2 ''Arena'' ''May 2024'' 0,
      obs 1 ''Arena'' ''June 2024'' 600,
      obs 2 ''Arena'' ''July 2024'' 0]"

definition sample_undated :: "row list" where
  "sample_undated =
     [obs 440 ''Team Fortress 2'' ''Last 30 Days'' 700,
      obs 440 ''Team Fortress 2'' ''February 2024'' 600,
      obs 440 ''Team Fortress 2'' ''n/a'' 0,
      obs 440 ''Team Fortress 2'' ''January 2024'' 0]"

section \<open>The Store Loader: \<^verbatim>\<open>csv_to_sqlite.py\<close>\<close>

subsection \<open>The operations on Python strings that \<^verbatim>\<open>parse_month_year\<close> uses\<close>

text \<open>\<^verbatim>\<open>sub in s\<close>: the string \<open>sub\<close> occurs in \<open>s\<close>.\<close>

fun py_in :: "string \<Rightarrow> string \<Rightarrow> bool" where
  "py_in sub [] = (sub = [])"
| "py_in sub (c # cs) = (take (length sub) (c # cs) = sub \<or> py_in sub cs)"

definition py_strip :: "string \<Rightarrow> string" where
  "py_strip s = rev (dropWhile is_space (rev (dropWhile is_space s)))"

text \<open>
  \<^verbatim>\<open>s.split()\<close>: the maximal runs of characters that are not white space.
  \<open>split_from cur s\<close> has read the characters \<open>cur\<close> of the current word.
\<close>

fun split_from :: "string \<Rightarrow> string \<Rightarrow> string list" where
  "split_from cur [] = (if cur = [] then [] else [cur])"
| "split_from cur (c # cs) =
     (if is_space c then (if cur = [] then split_from [] cs else cur # split_from [] cs)
      else split_from (cur @ [c]) cs)"

definition py_split :: "string \<Rightarrow> string list" where
  "py_split s = split_from [] s"

text \<open>
  \<^verbatim>\<open>int(s)\<close> on a string without white space: an optional sign, then decimal digits,
  where single underscores may stand between digits, and at most 4300 digits (the
  default limit of Python 3.11 and later). \<open>None\<close> is the \<^verbatim>\<open>ValueError\<close>.
\<close>

definition int_literal :: "string \<Rightarrow> bool" where
  "int_literal b =
     (b \<noteq> [] \<and> is_digit (hd b) \<and> is_digit (last b)
      \<and> list_all (\<lambda>c. is_digit c \<or> c = CHR ''_'') b \<and> \<not> py_in ''__'' b
      \<and> length (filter is_digit b) \<le> 4300)"

definition py_int :: "string \<Rightarrow> int option" where
  "py_int s =
     (let neg = (take 1 s = ''-'');
          b = (if take 1 s = ''-'' \<or> take 1 s = ''+'' then drop 1 s else s)
      in if int_literal b
         then Some ((if neg then - 1 else 1) * int (digits_val (filter (\<lambda>c. c \<noteq> CHR ''_'') b)))
         else None)"

subsection \<open>\<^verbatim>\<open>parse_month_year\<close>\<close>

definition month_mapping :: "(string \<times> int) list" where
  "month_mapping =
     [(''January'', 1), (''February'', 2), (''March'', 3), (''April'', 4),
      (''May'', 5), (''June'', 6), (''July'', 7), (''August'', 8),
      (''September'', 9), (''October'', 10), (''November'', 11), (''December'', 12)]"

text \<open>
  \<open>now\<close> is the year and the month that \<^verbatim>\<open>datetime.now()\<close> gives. The result
  \<open>(None, None)\<close> is returned at line 64 and, after any exception (here the
  \<^verbatim>\<open>ValueError\<close> of \<^verbatim>\<open>int\<close>), at line 66.
\<close>

definition parse_month_year :: "int \<times> int \<Rightarrow> string \<Rightarrow> int option \<times> int option" where
  "parse_month_year now month_str =
     (if py_in ''Last 30 Days'' month_str then (Some (fst now), Some (snd now))
      else
        let parts = py_split (py_strip month_str)
        in if length parts \<ge> 2 then
             (let month_name = parts ! 0
              in case py_int (parts ! 1) of
                   None \<Rightarrow> (None, None)
                 | Some year \<Rightarrow>
                     (Some year,
                      Some (case map_of month_mapping month_name of
                              Some month_num \<Rightarrow> month_num
                            | None \<Rightarrow> 1)))
           else (None, None))"

text \<open>
  The labels of the specification: a rolling-30-days label, and a recognized month name
  followed by a year.
\<close>

definition rolling_label :: "string \<Rightarrow> bool" where
  "rolling_label s = py_in ''Last 30 Days'' s"

definition month_name_plus_year :: "string \<Rightarrow> bool" where
  "month_name_plus_year s =
     (case py_split s of
        [name, year] \<Rightarrow> map_of month_mapping name \<noteq> None \<and> py_int year \<noteq> None
      | _ \<Rightarrow> False)"

subsection \<open>The relational store\<close>

text \<open>
  The schema of one SQLite database file: its tables with their columns, its indexes
  (name, table, column) and the names of its views. The stored rows are not modelled.
  A column made by \<^verbatim>\<open>CREATE TABLE\<close> has the type and the constraints the statement
  gives it; a column made by \<^verbatim>\<open>DataFrame.to_sql\<close> has no constraint and a type that
  pandas derives from the data (\<open>col_type = None\<close>).
\<close>

datatype sqltype = INTEGER | TEXT | REAL | TIMESTAMP

record column =
  col_name :: string
  col_type :: "sqltype option"
  primary_key :: bool
  autoincrement :: bool
  not_null :: bool
  default_current_timestamp :: bool
  references :: "(string \<times> string) option"

record database =
  tables :: "string \<rightharpoonup> column list"
  indexes :: "(string \<times> string \<times> string) list"
  views :: "string list"

datatype error = OperationalError | DatabaseError | ValueError

definition empty_database :: database where
  "empty_database = \<lparr>tables = Map.empty, indexes = [], views = []\<rparr>"

definition declared :: "string \<Rightarrow> sqltype \<Rightarrow> column" where
  "declared n t =
     \<lparr>col_name = n, col_type = Some t, primary_key = False, autoincrement = False,
      not_null = False, default_current_timestamp = False, references = None\<rparr>"

definition frame_column :: "string \<Rightarrow> column" where
  "frame_column n =
     \<lparr>col_name = n, col_type = None, primary_key = False, autoincrement = False,
      not_null = False, default_current_timestamp = False, references = None\<rparr>"

text \<open>
  The statements the loader executes, as SQLite runs them. \<open>Inl\<close> is the exception
  the statement raises; the database is then as it was before the statement.
\<close>

definition create_table_if_not_exists :: "string \<Rightarrow> column list \<Rightarrow> database \<Rightarrow> error + database" where
  "create_table_if_not_exists name cols db =
     (if tables db name \<noteq> None \<or> name \<in> set (views db) then Inr db
      else if name \<in> set (map fst (indexes db)) then Inl OperationalError
      else Inr (db\<lparr>tables := (tables db)(name \<mapsto> cols)\<rparr>))"

definition create_index_if_not_exists :: "string \<Rightarrow> string \<Rightarrow> string \<Rightarrow> database \<Rightarrow> error + database" where
  "create_index_if_not_exists name tbl col db =
     (case tables db tbl of
        None \<Rightarrow> Inl OperationalError
      | Some cols \<Rightarrow>
          if tables db name \<noteq> None \<or> name \<in> set (views db) then Inl OperationalError
          else if name \<in> set (map fst (indexes db)) then Inr db
          else if col \<in> set (map col_name cols)
               then Inr (db\<lparr>indexes := indexes db @ [(name, tbl, col)]\<rparr>)
               else Inl OperationalError)"

definition create_view_if_not_exists :: "string \<Rightarrow> database \<Rightarrow> error + database" where
  "create_view_if_not_exists name db =
     (if tables db name \<noteq> None \<or> name \<in> set (views db) then Inr db
      else if name \<in> set (map fst (indexes db)) then Inl OperationalError
      else Inr (db\<lparr>views := views db @ [name]\<rparr>))"

text \<open>\<^verbatim>\<open>DROP TABLE\<close> removes the table and every index on it.\<close>

definition drop_table :: "string \<Rightarrow> database \<Rightarrow> error + database" where
  "drop_table name db =
     (if tables db name = None then Inl OperationalError
      else Inr (db\<lparr>tables := (tables db)(name := None),
                   indexes := filter (\<lambda>(i, t, c). t \<noteq> name) (indexes db)\<rparr>))"

text \<open>\<^verbatim>\<open>CREATE TABLE\<close> without \<^verbatim>\<open>IF NOT EXISTS\<close>, as pandas issues it.\<close>

definition create_table :: "string \<Rightarrow> column list \<Rightarrow> database \<Rightarrow> error + database" where
  "create_table name cols db =
     (if tables db name \<noteq> None \<or> name \<in> set (views db) \<or> name \<in> set (map fst (indexes db))
      then Inl OperationalError
      else Inr (db\<lparr>tables := (tables db)(name \<mapsto> cols)\<rparr>))"

subsection \<open>The process and its surroundings\<close>

text \<open>One constructor for each \<^verbatim>\<open>print\<close> call of the functions modelled below.\<close>

datatype message =
    SchemaCreated
  | CsvNotFound string
  | LoadingData string
  | LoadedRecords nat
  | ProcessingGames
  | InsertedGames nat
  | ProcessingHistory
  | InsertedHistory nat
  | ViewsCreated
  | DatabaseCreated string

text \<open>
  What the process can see and change: the CSV files that exist, each with the table
  \<^verbatim>\<open>pd.read_csv\<close> makes of it (a file with the five columns the scraper writes); the
  database files; what has been printed; and the year and month of the clock.
\<close>

record world =
  csv_files :: "string \<rightharpoonup> dataframe"
  databases :: "string \<rightharpoonup> database"
  console :: "message list"
  clock :: "int \<times> int"

text \<open>
  How a call ends: it returns to its caller, it raises an exception that nothing in the
  loader catches, or it ends the process (\<^verbatim>\<open>exit()\<close>).
\<close>

datatype outcome = Returned | Raised error | Exited

definition say :: "message \<Rightarrow> world \<Rightarrow> outcome \<times> world" where
  "say m w = (Returned, w\<lparr>console := console w @ [m]\<rparr>)"

text \<open>
  \<^verbatim>\<open>sqlite3.connect(db_file)\<close> opens the database of that file, an empty one if the
  file is new (\<open>connect\<close> is the database the connection works on); \<open>execute\<close> runs
  one statement on it.
\<close>

definition connect :: "string \<Rightarrow> world \<Rightarrow> database" where
  "connect db_file w = (case databases w db_file of None \<Rightarrow> empty_database | Some db \<Rightarrow> db)"

definition sqlite3_connect :: "string \<Rightarrow> world \<Rightarrow> outcome \<times> world" where
  "sqlite3_connect db_file w =
     (Returned, w\<lparr>databases := (databases w)(db_file \<mapsto> connect db_file w)\<rparr>)"

definition execute :: "string \<Rightarrow> (database \<Rightarrow> error + database) \<Rightarrow> world \<Rightarrow> outcome \<times> world" where
  "execute db_file stmt w =
     (case stmt (connect db_file w) of
        Inl e \<Rightarrow> (Raised e, w)
      | Inr db \<Rightarrow> (Returned, w\<lparr>databases := (databases w)(db_file \<mapsto> db)\<rparr>))"

text \<open>Statements in sequence: the first that does not return ends the sequence.\<close>

fun in_order :: "(world \<Rightarrow> outcome \<times> world) list \<Rightarrow> world \<Rightarrow> outcome \<times> world" where
  "in_order [] w = (Returned, w)"
| "in_order (step # steps) w =
     (case step w of
        (Returned, w') \<Rightarrow> in_order steps w'
      | (out, w') \<Rightarrow> (out, w'))"

text \<open>
  \<^verbatim>\<open>frame.to_sql(name, conn, if_exists='replace', index=False)\<close> for a frame with
  the columns \<open>cols\<close>: pandas looks for a table or view of that name, drops it with
  \<^verbatim>\<open>DROP TABLE\<close> if there is one, and then creates the table with one column for
  each column of the frame. An exception of SQLite reaches the caller as the
  \<^verbatim>\<open>DatabaseError\<close> of pandas.
\<close>

definition pandas_execute :: "string \<Rightarrow> (database \<Rightarrow> error + database) \<Rightarrow> world \<Rightarrow> outcome \<times> world" where
  "pandas_execute conn stmt w =
     (case execute conn stmt w of
        (Raised e, w') \<Rightarrow> (Raised DatabaseError, w')
      | (out, w') \<Rightarrow> (out, w'))"

definition to_sql_replace :: "string \<Rightarrow> string \<Rightarrow> string list \<Rightarrow> world \<Rightarrow> outcome \<times> world" where
  "to_sql_replace conn name cols w =
     (if tables (connect conn w) name \<noteq> None \<or> name \<in> set (views (connect conn w))
      then in_order
             [pandas_execute conn (drop_table name),
              pandas_execute conn (create_table name (map frame_column cols))] w
      else pandas_execute conn (create_table name (map frame_column cols)) w)"

subsection \<open>\<^verbatim>\<open>create_database_schema\<close>, \<^verbatim>\<open>create_summary_views\<close>, \<^verbatim>\<open>import_csv_to_sqlite\<close>\<close>

definition games_columns :: "column list" where
  "games_columns =
     [(declared ''appid'' INTEGER)\<lparr>primary_key := True\<rparr>,
      (declared ''game_name'' TEXT)\<lparr>not_null := True\<rparr>,
      (declared ''created_at'' TIMESTAMP)\<lparr>default_current_timestamp := True\<rparr>]"

definition player_history_columns :: "column list" where
  "player_history_columns =
     [(declared ''id'' INTEGER)\<lparr>primary_key := True, autoincrement := True\<rparr>,
      (declared ''appid'' INTEGER)\<lparr>references := Some (''games'', ''appid'')\<rparr>,
      (declared ''month'' TEXT)\<lparr>not_null := True\<rparr>,
      (declared ''avg_players'' REAL)\<lparr>not_null := True\<rparr>,
      (declared ''peak_players'' INTEGER)\<lparr>not_null := True\<rparr>,
      declared ''year'' INTEGER,
      declared ''month_num'' INTEGER,
      (declared ''created_at'' TIMESTAMP)\<lparr>default_current_timestamp := True\<rparr>]"

definition create_database_schema :: "string \<Rightarrow> world \<Rightarrow> outcome \<times> world" where
  "create_database_schema conn =
     in_order
       [execute conn (create_table_if_not_exists ''games'' games_columns),
        execute conn (create_table_if_not_exists ''player_history'' player_history_columns),
        execute conn (create_index_if_not_exists ''idx_appid'' ''player_history'' ''appid''),
        execute conn (create_index_if_not_exists ''idx_year'' ''player_history'' ''year''),
        execute conn (create_index_if_not_exists ''idx_month'' ''player_history'' ''month''),
        execute conn (create_index_if_not_exists ''idx_avg_players'' ''player_history'' ''avg_players''),
        say SchemaCreated]"

definition create_summary_views :: "string \<Rightarrow> world \<Rightarrow> outcome \<times> world" where
  "create_summary_views conn =
     in_order
       [execute conn (create_view_if_not_exists ''latest_player_data''),
        execute conn (create_view_if_not_exists ''top_games_avg''),
        execute conn (create_view_if_not_exists ''yearly_trends''),
        say ViewsCreated]"

text \<open>
  The frames of lines 88 and 101 to 104: the distinct (appid, game_name) pairs, and the
  rows whose label \<^verbatim>\<open>parse_month_year\<close> does not map to \<open>(None, None)\<close>.
\<close>

definition games_df :: "dataframe \<Rightarrow> (int \<times> string) list" where
  "games_df df = unique (map (\<lambda>r. (appid r, game_name r)) df)"

definition history_df :: "int \<times> int \<Rightarrow> dataframe \<Rightarrow> dataframe" where
  "history_df now df =
     filter (\<lambda>r. fst (parse_month_year now (month r)) \<noteq> None
                \<and> snd (parse_month_year now (month r)) \<noteq> None) df"

text \<open>
  Line 96 assigns the two new columns from the result of \<^verbatim>\<open>apply\<close>; for a table
  without rows that result has no columns, and the assignment raises
  \<^verbatim>\<open>ValueError\<close>. The stored rows are not modelled, and neither is an exception that
  a stored value causes (line 107 raises \<^verbatim>\<open>OverflowError\<close> for a year that SQLite
  cannot hold in 64 bits): every import that completes in the code completes in the model,
  with the same schema.
\<close>

definition add_year_and_month_num :: "dataframe \<Rightarrow> world \<Rightarrow> outcome \<times> world" where
  "add_year_and_month_num df w = (if df = [] then (Raised ValueError, w) else (Returned, w))"

definition import_csv_to_sqlite :: "string \<Rightarrow> string \<Rightarrow> world \<Rightarrow> outcome \<times> world" where
  "import_csv_to_sqlite csv_file db_file w =
     (case csv_files w csv_file of
        None \<Rightarrow> say (CsvNotFound csv_file) w
      | Some df \<Rightarrow>
          in_order
            [say (LoadingData csv_file),
             say (LoadedRecords (length df)),
             sqlite3_connect db_file,
             create_database_schema db_file,
             say ProcessingGames,
             to_sql_replace db_file ''games'' [''appid'', ''game_name''],
             say (InsertedGames (length (games_df df))),
             say ProcessingHistory,
             add_year_and_month_num df,
             to_sql_replace db_file ''player_history''
               [''appid'', ''month'', ''avg_players'', ''peak_players'', ''year'', ''month_num''],
             say (InsertedHistory (length (history_df (clock w) df))),
             create_summary_views db_file,
             say (DatabaseCreated db_file)]
            w)"

subsection \<open>The schema the specification states\<close>

definition stated_games_table :: "column list \<Rightarrow> bool" where
  "stated_games_table cols =
     (map col_name cols = [''appid'', ''game_name'', ''created_at'']
      \<and> map col_name (filter primary_key cols) = [''appid''])"

definition stated_player_history_table :: "column list \<Rightarrow> bool" where
  "stated_player_history_table cols =
     (map col_name cols =
        [''id'', ''appid'', ''month'', ''avg_players'', ''peak_players'', ''year'',
         ''month_num'', ''created_at'']
      \<and> map col_name (filter primary_key cols) = [''id'']
      \<and> map col_name (filter autoincrement cols) = [''id'']
      \<and> map (\<lambda>c. (col_name c, references c)) (filter (\<lambda>c. references c \<noteq> None) cols)
          = [(''appid'', Some (''games'', ''appid''))])"

definition indexed_columns :: "database \<Rightarrow> string \<Rightarrow> string list" where
  "indexed_columns db tbl = map (\<lambda>(i, t, c). c) (filter (\<lambda>(i, t, c). t = tbl) (indexes db))"

definition conforms_to_stated_schema :: "database \<Rightarrow> bool" where
  "conforms_to_stated_schema db =
     ((case tables db ''games'' of None \<Rightarrow> False | Some cols \<Rightarrow> stated_games_table cols)
      \<and> (case tables db ''player_history'' of
            None \<Rightarrow> False
          | Some cols \<Rightarrow> stated_player_history_table cols)
      \<and> list_all (\<lambda>c. c \<in> set (indexed_columns db ''player_history''))
           [''appid'', ''year'', ''month'', ''avg_players''])"

definition sample_world :: world where
  "sample_world =
     \<lparr>csv_files = [''steam_top100_with_names.csv'' \<mapsto> sample_shared_name],
      databases = Map.empty,
      console = [],
      clock = (2026, 11)\<rparr>"

section \<open>Properties of the Cleaner\<close>

subsection \<open>The scan and the run-length counter\<close>

lemma run_counter_Nil: "run_counter t c [] = c"
  by (simp add: run_counter_def)

lemma run_counter_Cons:
  "run_counter t c (v # vs) = run_counter t (if v \<ge> t then c + 1 else 0) vs"
  by (simp add: run_counter_def)

lemma run_counter_snoc:
  "run_counter t c (vs @ [v]) = (if v \<ge> t then run_counter t c vs + 1 else 0)"
  by (simp add: run_counter_def)

lemma run_counter_trailing:
  "run_counter t 0 vs = int (length (takeWhile (\<lambda>v. v \<ge> t) (rev vs)))"
  by (induction vs rule: rev_induct) (simp_all add: run_counter_Nil run_counter_snoc)

lemma scan_rows_first:
  assumes "i < length xs"
    and "avg_players (xs ! i) \<ge> t"
    and "m \<le> run_counter t c (take (Suc i) (map avg_players xs))"
    and "\<forall>j<i. \<not> (avg_players (xs ! j) \<ge> t
                  \<and> m \<le> run_counter t c (take (Suc j) (map avg_players xs)))"
  shows "scan_rows t m idx c xs = Some (max 0 (idx + int i - m + 1))"
  using assms
proof (induction xs arbitrary: i idx c)
  case Nil
  then show ?case by simp
next
  case (Cons x xs)
  show ?case
  proof (cases i)
    case 0
    with Cons.prems show ?thesis
      by (simp add: run_counter_Cons run_counter_Nil split: if_splits)
  next
    case (Suc k)
    let ?c = "if avg_players x \<ge> t then c + 1 else 0"
    from Cons.prems(4) Suc
    have stay: "\<not> (avg_players x \<ge> t \<and> m \<le> c + 1)"
      by (auto simp: run_counter_Cons run_counter_Nil dest!: spec [of _ 0])
    have k1: "k < length xs" using Cons.prems(1) Suc by simp
    have k2: "avg_players (xs ! k) \<ge> t" using Cons.prems(2) Suc by simp
    have k3: "m \<le> run_counter t ?c (take (Suc k) (map avg_players xs))"
      using Cons.prems(3) Suc by (simp add: run_counter_Cons)
    have k4: "\<forall>j<k. \<not> (avg_players (xs ! j) \<ge> t
                \<and> m \<le> run_counter t ?c (take (Suc j) (map avg_players xs)))"
    proof (intro allI impI)
      fix j assume "j < k"
      then have "Suc j < i" using Suc by simp
      with Cons.prems(4) show "\<not> (avg_players (xs ! j) \<ge> t
                \<and> m \<le> run_counter t ?c (take (Suc j) (map avg_players xs)))"
        by (auto simp: run_counter_Cons dest!: spec [of _ "Suc j"])
    qed
    have "scan_rows t m (idx + 1) ?c xs = Some (max 0 (idx + 1 + int k - m + 1))"
      by (rule Cons.IH [OF k1 k2 k3 k4])
    with stay Suc show ?thesis by (auto simp: algebra_simps)
  qed
qed

lemma scan_rows_none:
  assumes "\<forall>j<length xs. \<not> (avg_players (xs ! j) \<ge> t
                  \<and> m \<le> run_counter t c (take (Suc j) (map avg_players xs)))"
  shows "scan_rows t m idx c xs = None"
  using assms
proof (induction xs arbitrary: idx c)
  case Nil
  then show ?case by simp
next
  case (Cons x xs)
  let ?c = "if avg_players x \<ge> t then c + 1 else 0"
  from Cons.prems
  have stay: "\<not> (avg_players x \<ge> t \<and> m \<le> c + 1)"
    by (auto simp: run_counter_Cons run_counter_Nil dest!: spec [of _ 0])
  have "\<forall>j<length xs. \<not> (avg_players (xs ! j) \<ge> t
                \<and> m \<le> run_counter t ?c (take (Suc j) (map avg_players xs)))"
  proof (intro allI impI)
    fix j assume "j < length xs"
    then have "Suc j < length (x # xs)" by simp
    with Cons.prems show "\<not> (avg_players (xs ! j) \<ge> t
                \<and> m \<le> run_counter t ?c (take (Suc j) (map avg_players xs)))"
      by (auto simp: run_counter_Cons dest!: spec [of _ "Suc j"])
  qed
  then have "scan_rows t m (idx + 1) ?c xs = None"
    by (rule Cons.IH)
  with stay show ?case by auto
qed

lemma first_reach_iff:
  "first_reach t m vs i \<longleftrightarrow> reaches_at t m vs i \<and> (\<forall>j<i. \<not> reaches_at t m vs j)"
  by (auto simp: first_reach_def list_ex_iff)

lemma reaches_at_positive:
  assumes "1 \<le> m"
  shows "reaches_at t m vs i \<longleftrightarrow> i < length vs \<and> m \<le> run_counter t 0 (take (Suc i) vs)"
proof (cases "i < length vs")
  case True
  then have "take (Suc i) vs = take i vs @ [vs ! i]" by (rule take_Suc_conv_app_nth)
  then have "run_counter t 0 (take (Suc i) vs) =
               (if vs ! i \<ge> t then run_counter t 0 (take i vs) + 1 else 0)"
    by (simp add: run_counter_snoc)
  with assms True show ?thesis by (auto simp: reaches_at_def)
next
  case False
  then show ?thesis by (simp add: reaches_at_def)
qed

lemma meaningful_start_first:
  assumes "first_reach t m (map avg_players s) i"
  shows "meaningful_start t m s = Some (max 0 (int i - m + 1))"
proof -
  from assms have r: "reaches_at t m (map avg_players s) i"
    and n: "\<forall>j<i. \<not> reaches_at t m (map avg_players s) j"
    by (simp_all add: first_reach_iff)
  from r have i: "i < length s" by (simp add: reaches_at_def)
  from r i have a: "avg_players (s ! i) \<ge> t" by (simp add: reaches_at_def)
  from r have c: "m \<le> run_counter t 0 (take (Suc i) (map avg_players s))"
    by (simp add: reaches_at_def)
  have "\<forall>j<i. \<not> (avg_players (s ! j) \<ge> t
          \<and> m \<le> run_counter t 0 (take (Suc j) (map avg_players s)))"
  proof (intro allI impI)
    fix j assume "j < i"
    with n i show "\<not> (avg_players (s ! j) \<ge> t
          \<and> m \<le> run_counter t 0 (take (Suc j) (map avg_players s)))"
      by (auto simp: reaches_at_def)
  qed
  from scan_rows_first [OF i a c this, of 0] show ?thesis
    by (simp add: meaningful_start_def)
qed

lemma meaningful_start_none:
  assumes "\<forall>j<length s. \<not> reaches_at t m (map avg_players s) j"
  shows "meaningful_start t m s = None"
proof -
  have "\<forall>j<length s. \<not> (avg_players (s ! j) \<ge> t
          \<and> m \<le> run_counter t 0 (take (Suc j) (map avg_players s)))"
    using assms by (auto simp: reaches_at_def)
  then show ?thesis
    unfolding meaningful_start_def by (rule scan_rows_none)
qed

lemma meaningful_start_SomeD:
  assumes "meaningful_start t m s = Some c"
  shows "\<exists>i. first_reach t m (map avg_players s) i \<and> c = max 0 (int i - m + 1)"
proof -
  have "\<exists>j. reaches_at t m (map avg_players s) j"
  proof (rule ccontr)
    assume "\<not> ?thesis"
    then have "\<forall>j<length s. \<not> reaches_at t m (map avg_players s) j" by simp
    then have "meaningful_start t m s = None" by (rule meaningful_start_none)
    with assms show False by simp
  qed
  then obtain j where j: "reaches_at t m (map avg_players s) j" ..
  define i where "i = (LEAST j. reaches_at t m (map avg_players s) j)"
  have "reaches_at t m (map avg_players s) i"
    unfolding i_def using j by (rule LeastI)
  moreover have "\<forall>k<i. \<not> reaches_at t m (map avg_players s) k"
    unfolding i_def using not_less_Least by blast
  ultimately have f: "first_reach t m (map avg_players s) i"
    by (simp add: first_reach_iff)
  from meaningful_start_first [OF f] assms have "c = max 0 (int i - m + 1)" by simp
  with f show ?thesis by blast
qed

subsection \<open>Runs, sorting and the groups of a table\<close>

lemma run_counter_le_length: "run_counter t 0 vs \<le> int (length vs)"
  using length_takeWhile_le [of "\<lambda>v. v \<ge> t" "rev vs"] by (simp add: run_counter_trailing)

lemma take_takeWhile_prefix:
  "n \<le> length (takeWhile P xs) \<Longrightarrow> take n xs = take n (takeWhile P xs)"
proof -
  assume n: "n \<le> length (takeWhile P xs)"
  have "take n xs = take n (takeWhile P xs @ dropWhile P xs)" by simp
  also have "\<dots> = take n (takeWhile P xs)" using n by (simp del: takeWhile_dropWhile_id)
  finally show ?thesis .
qed

lemma trailing_run_qualifies:
  assumes "int n \<le> run_counter t 0 ys"
  shows "n \<le> length ys \<and> list_all (\<lambda>v. v \<ge> t) (drop (length ys - n) ys)"
proof -
  let ?P = "\<lambda>v. v \<ge> t"
  from assms have n: "n \<le> length (takeWhile ?P (rev ys))"
    by (simp add: run_counter_trailing)
  also have "\<dots> \<le> length (rev ys)" by (rule length_takeWhile_le)
  finally have len: "n \<le> length ys" by simp
  have "take n (rev ys) = take n (takeWhile ?P (rev ys))"
    using n by (rule take_takeWhile_prefix)
  then have "set (take n (rev ys)) \<subseteq> set (takeWhile ?P (rev ys))"
    by (simp add: set_take_subset)
  then have "\<forall>v\<in>set (take n (rev ys)). ?P v"
    by (auto dest: set_takeWhileD)
  moreover have "take n (rev ys) = rev (drop (length ys - n) ys)"
    by (simp add: take_rev)
  ultimately have "\<forall>v\<in>set (drop (length ys - n) ys). ?P v" by simp
  with len show ?thesis by (simp add: list_all_iff)
qed

lemma reaches_at_has_run:
  assumes "reaches_at t m vs j"
  shows "has_run t m vs"
proof -
  let ?ys = "take (Suc j) vs"
  from assms have j: "j < length vs" and c: "m \<le> run_counter t 0 ?ys"
    by (simp_all add: reaches_at_def)
  from c have "int (nat m) \<le> run_counter t 0 ?ys"
    by (simp add: run_counter_trailing)
  from j have l: "length ?ys = Suc j" by simp
  from trailing_run_qualifies [OF \<open>int (nat m) \<le> run_counter t 0 ?ys\<close>]
  have n: "nat m \<le> Suc j"
    and q: "list_all (\<lambda>v. v \<ge> t) (drop (Suc j - nat m) ?ys)"
    unfolding l by simp_all
  let ?i = "Suc j - nat m"
  have "take (nat m) (drop ?i vs) = drop ?i (take (nat m + ?i) vs)"
    by (simp add: take_drop)
  also have "nat m + ?i = Suc j" using n by simp
  finally have "list_all (\<lambda>v. v \<ge> t) (take (nat m) (drop ?i vs))" using q by simp
  moreover have "?i + nat m \<le> length vs" using n j by simp
  moreover have "?i \<in> set [0 ..< Suc (length vs)]" using j by (simp del: upt_Suc)
  ultimately show ?thesis
    unfolding has_run_def list_ex_iff by blast
qed

lemma has_run_reaches_at:
  assumes "1 \<le> m" and "has_run t m vs"
  shows "\<exists>j. reaches_at t m vs j"
proof -
  from assms(2) obtain i where i: "i + nat m \<le> length vs"
    and q: "list_all (\<lambda>v. v \<ge> t) (take (nat m) (drop i vs))"
    unfolding has_run_def list_ex_iff by blast
  define j where "j = i + nat m - 1"
  from assms(1) i have j: "j < length vs" and sj: "Suc j = i + nat m"
    unfolding j_def by simp_all
  have "take (nat m) (drop i vs) = drop i (take (Suc j) vs)"
    unfolding sj by (simp add: take_drop add.commute)
  with q have all: "list_all (\<lambda>v. v \<ge> t) (drop i (take (Suc j) vs))" by simp
  define a where "a = rev (drop i (take (Suc j) vs))"
  define b where "b = rev (take i (take (Suc j) vs))"
  have split: "rev (take (Suc j) vs) = a @ b"
    unfolding a_def b_def by (metis append_take_drop_id rev_append)
  have "\<forall>v\<in>set a. v \<ge> t"
    unfolding a_def using all by (simp add: list_all_iff)
  then have "takeWhile (\<lambda>v. v \<ge> t) (a @ b) = a @ takeWhile (\<lambda>v. v \<ge> t) b"
    by (simp add: takeWhile_append2)
  then have "length a \<le> length (takeWhile (\<lambda>v. v \<ge> t) (rev (take (Suc j) vs)))"
    unfolding split by simp
  moreover have "length a = nat m"
    unfolding a_def using j sj by simp
  ultimately have "m \<le> run_counter t 0 (take (Suc j) vs)"
    unfolding run_counter_trailing by simp
  with assms(1) j have "reaches_at t m vs j"
    by (simp add: reaches_at_positive)
  then show ?thesis ..
qed

lemma cut_found_iff_has_run:
  assumes "1 \<le> m"
  shows "meaningful_start t m s \<noteq> None \<longleftrightarrow> has_run t m (map avg_players s)"
proof
  assume "meaningful_start t m s \<noteq> None"
  then obtain c where "meaningful_start t m s = Some c" by blast
  from meaningful_start_SomeD [OF this] obtain i where "first_reach t m (map avg_players s) i"
    by blast
  then have "reaches_at t m (map avg_players s) i" by (simp add: first_reach_iff)
  then show "has_run t m (map avg_players s)" by (rule reaches_at_has_run)
next
  assume "has_run t m (map avg_players s)"
  with assms obtain j where "reaches_at t m (map avg_players s) j"
    using has_run_reaches_at by blast
  then have "\<not> (\<forall>j<length s. \<not> reaches_at t m (map avg_players s) j)"
    by (auto simp: reaches_at_def)
  show "meaningful_start t m s \<noteq> None"
  proof
    assume "meaningful_start t m s = None"
    have "\<exists>k. reaches_at t m (map avg_players s) k" using \<open>reaches_at t m (map avg_players s) j\<close> ..
    then obtain k where k: "reaches_at t m (map avg_players s) k"
      and least: "\<forall>l<k. \<not> reaches_at t m (map avg_players s) l"
      using exists_least_iff [of "reaches_at t m (map avg_players s)"] by blast
    then have "first_reach t m (map avg_players s) k" by (simp add: first_reach_iff)
    then have "meaningful_start t m s = Some (max 0 (int k - m + 1))"
      by (rule meaningful_start_first)
    with \<open>meaningful_start t m s = None\<close> show False by simp
  qed
qed

lemma length_sort_values: "length (sort_values rows) = length rows"
proof -
  have "length (filter (\<lambda>r. date r \<noteq> None) rows) + length (filter (\<lambda>r. \<not> date r \<noteq> None) rows)
          = length rows"
    by (rule sum_length_filter_compl)
  then show ?thesis by (simp add: sort_values_def del: not_None_eq)
qed

lemma set_sort_values: "set (sort_values rows) = set rows"
  by (auto simp: sort_values_def)

lemma length_clean_one_game: "length (clean_one_game t m rows) \<le> length rows"
proof (cases "meaningful_start t m (sort_values rows)")
  case None
  then show ?thesis by (simp add: clean_one_game_def length_sort_values)
next
  case (Some s)
  then show ?thesis by (simp add: clean_one_game_def length_sort_values)
qed

lemma set_clean_one_game: "set (clean_one_game t m rows) \<subseteq> set rows"
proof -
  have "set (drop k (sort_values rows)) \<subseteq> set rows" for k
    using set_drop_subset [of k "sort_values rows"] by (simp add: set_sort_values)
  then show ?thesis
    by (simp add: clean_one_game_def Let_def set_sort_values split: option.splits)
qed

lemma clean_one_game_Nil: "clean_one_game t m [] = []"
  by (simp add: clean_one_game_def sort_values_def meaningful_start_def)

lemma set_unique: "set (unique xs) = set xs"
  by (induction xs rule: unique.induct) auto

lemma distinct_unique: "distinct (unique xs)"
  by (induction xs rule: unique.induct) (auto simp: set_unique)

lemma unique_eq_Nil: "unique xs = [] \<longleftrightarrow> xs = []"
  by (cases xs) simp_all

lemma clean_game_data_Nil: "clean_game_data t m [] = []"
  by (simp add: clean_game_data_def)

lemma clean_game_data_groups:
  "unique (map game_name df) \<noteq> [] \<Longrightarrow>
   clean_game_data t m df =
     concat (map (\<lambda>name. clean_one_game t m (filter (\<lambda>r. game_name r = name) df))
                 (unique (map game_name df)))"
  unfolding clean_game_data_def Let_def by simp

lemma clean_game_data_unfold:
  "clean_game_data t m df =
     concat (map (\<lambda>name. clean_one_game t m (filter (\<lambda>r. game_name r = name) df))
                 (unique (map game_name df)))"
proof (cases df)
  case Nil
  show ?thesis unfolding Nil by (simp add: clean_game_data_Nil)
next
  case (Cons r rs)
  have "unique (map game_name df) \<noteq> []" unfolding Cons by simp
  then show ?thesis by (rule clean_game_data_groups)
qed

lemma filter_clean_one_game_name:
  "filter (\<lambda>r. game_name r = n) (clean_one_game t m (filter (\<lambda>r. game_name r = k) df)) =
     (if k = n then clean_one_game t m (filter (\<lambda>r. game_name r = k) df) else [])"
proof -
  define c where "c = clean_one_game t m (filter (\<lambda>r. game_name r = k) df)"
  have all: "\<forall>r\<in>set c. game_name r = k"
  proof
    fix r assume "r \<in> set c"
    then have "r \<in> set (filter (\<lambda>r. game_name r = k) df)"
      unfolding c_def
      using set_clean_one_game [of t m "filter (\<lambda>r. game_name r = k) df"] by (rule rev_subsetD)
    then show "game_name r = k" by simp
  qed
  have "filter (\<lambda>r. game_name r = n) c = (if k = n then c else [])"
  proof (cases "k = n")
    case True
    from all have "filter (\<lambda>r. game_name r = k) c = c"
      by (rule filter_id_conv [THEN iffD2])
    with True show ?thesis by simp
  next
    case False
    have "\<forall>r\<in>set c. \<not> game_name r = n"
    proof
      fix r assume "r \<in> set c"
      with all have "game_name r = k" by (rule bspec)
      with False show "\<not> game_name r = n" by simp
    qed
    then have "filter (\<lambda>r. game_name r = n) c = []"
      by (rule filter_empty_conv [THEN iffD2])
    with False show ?thesis by simp
  qed
  then show ?thesis unfolding c_def .
qed

lemma concat_map_single:
  assumes "distinct ns"
  shows "concat (map (\<lambda>k. if k = n then f k else []) ns) = (if n \<in> set ns then f n else [])"
  using assms by (induction ns) auto

lemma filter_name_clean_game_data:
  "filter (\<lambda>r. game_name r = n) (clean_game_data t m df) =
     clean_one_game t m (filter (\<lambda>r. game_name r = n) df)"
proof -
  let ?f = "\<lambda>k. clean_one_game t m (filter (\<lambda>r. game_name r = k) df)"
  let ?ns = "unique (map game_name df)"
  have "filter (\<lambda>r. game_name r = n) (clean_game_data t m df) =
          concat (map (\<lambda>k. if k = n then ?f k else []) ?ns)"
    by (simp add: clean_game_data_unfold filter_concat comp_def filter_clean_one_game_name)
  also have "\<dots> = (if n \<in> set ?ns then ?f n else [])"
    using distinct_unique by (rule concat_map_single)
  also have "\<dots> = ?f n"
  proof (cases "n \<in> set ?ns")
    case True
    then show ?thesis by simp
  next
    case False
    then have "filter (\<lambda>r. game_name r = n) df = []"
      by (auto simp: set_unique filter_empty_conv)
    with False show ?thesis by (simp add: clean_one_game_Nil)
  qed
  finally show ?thesis .
qed

lemma sum_length_groups:
  "sum_list (map (\<lambda>n. length (filter (\<lambda>r. f r = n) xs)) (unique (map f xs))) = length xs"
proof (induction "length xs" arbitrary: xs rule: less_induct)
  case less
  show ?case
  proof (cases xs)
    case Nil
    then show ?thesis by simp
  next
    case (Cons x xs')
    let ?zs = "filter (\<lambda>r. f r \<noteq> f x) xs'"
    have u: "unique (map f xs) = f x # unique (map f ?zs)"
      using Cons by (simp add: filter_map comp_def)
    have "length ?zs < length xs" using Cons by (simp add: less_Suc_eq_le)
    then have ih: "sum_list (map (\<lambda>n. length (filter (\<lambda>r. f r = n) ?zs)) (unique (map f ?zs)))
                     = length ?zs"
      by (rule less.hyps)
    have "length (filter (\<lambda>r. f r = n) xs) = length (filter (\<lambda>r. f r = n) ?zs)"
      if "n \<in> set (unique (map f ?zs))" for n
    proof -
      from that have "n \<noteq> f x" by (auto simp: set_unique)
      then have "filter (\<lambda>r. f r = n) xs = filter (\<lambda>r. f r = n) ?zs"
        using Cons by (auto intro: filter_cong)
      then show ?thesis by simp
    qed
    then have "sum_list (map (\<lambda>n. length (filter (\<lambda>r. f r = n) xs)) (unique (map f ?zs)))
                 = length ?zs"
      using ih by (simp cong: map_cong)
    moreover have "length (filter (\<lambda>r. f r = f x) xs) = Suc (length (filter (\<lambda>r. f r = f x) xs'))"
      using Cons by simp
    moreover have "length (filter (\<lambda>r. f r = f x) xs') + length ?zs = length xs'"
      by (rule sum_length_filter_compl)
    ultimately show ?thesis using u Cons by simp
  qed
qed

lemma length_clean_game_data: "length (clean_game_data t m df) \<le> length df"
proof -
  let ?ns = "unique (map game_name df)"
  have "length (clean_game_data t m df) =
          sum_list (map (\<lambda>n. length (clean_one_game t m (filter (\<lambda>r. game_name r = n) df))) ?ns)"
    by (simp add: clean_game_data_unfold length_concat comp_def)
  also have "\<dots> \<le> sum_list (map (\<lambda>n. length (filter (\<lambda>r. game_name r = n) df)) ?ns)"
    using length_clean_one_game by (intro sum_list_mono) blast
  also have "\<dots> = length df" by (rule sum_length_groups)
  finally show ?thesis .
qed

subsection \<open>Cleaning a cleaned series\<close>

lemma chronologicalI:
  assumes "s = ds @ us"
    and "\<forall>r\<in>set ds. date r \<noteq> None"
    and "\<forall>r\<in>set us. date r = None"
    and "sorted (map (\<lambda>r. the (date r)) ds)"
  shows "chronological s"
proof -
  have d: "filter (\<lambda>r. date r \<noteq> None) ds = ds"
    using assms(2) by (rule filter_id_conv [THEN iffD2])
  have "\<forall>r\<in>set ds. \<not> date r = None" using assms(2) .
  then have d': "filter (\<lambda>r. date r = None) ds = []"
    by (rule filter_empty_conv [THEN iffD2])
  have u: "filter (\<lambda>r. date r = None) us = us"
    using assms(3) by (rule filter_id_conv [THEN iffD2])
  have "\<forall>r\<in>set us. \<not> date r \<noteq> None" using assms(3) by simp
  then have u': "filter (\<lambda>r. date r \<noteq> None) us = []"
    by (rule filter_empty_conv [THEN iffD2])
  have 1: "filter (\<lambda>r. date r \<noteq> None) s = ds"
    unfolding assms(1) filter_append d u' by simp
  have 2: "filter (\<lambda>r. date r = None) s = us"
    unfolding assms(1) filter_append d' u by simp
  show ?thesis
    unfolding chronological_def 1 2 using assms(1,4) by blast
qed

lemma chronological_sort_values: "chronological (sort_values rows)"
proof (rule chronologicalI)
  show "sort_values rows =
          sort_key (\<lambda>r. the (date r)) (filter (\<lambda>r. date r \<noteq> None) rows)
          @ filter (\<lambda>r. date r = None) rows"
    by (rule sort_values_def)
  show "\<forall>r\<in>set (sort_key (\<lambda>r. the (date r)) (filter (\<lambda>r. date r \<noteq> None) rows)).
          date r \<noteq> None"
    unfolding set_sort set_filter by blast
  show "\<forall>r\<in>set (filter (\<lambda>r. date r = None) rows). date r = None"
    unfolding set_filter by blast
  show "sorted (map (\<lambda>r. the (date r))
          (sort_key (\<lambda>r. the (date r)) (filter (\<lambda>r. date r \<noteq> None) rows)))"
    by (rule sorted_sort_key)
qed

lemma chronological_drop:
  assumes "chronological s"
  shows "chronological (drop k s)"
proof -
  define ds where "ds = filter (\<lambda>r. date r \<noteq> None) s"
  define us where "us = filter (\<lambda>r. date r = None) s"
  from assms have srt: "sorted (map (\<lambda>r. the (date r)) ds)" and split: "s = ds @ us"
    unfolding chronological_def ds_def us_def by blast+
  show ?thesis
  proof (rule chronologicalI)
    show "drop k s = drop k ds @ drop (k - length ds) us"
      unfolding split by (rule drop_append)
    have "\<forall>r\<in>set ds. date r \<noteq> None" unfolding ds_def set_filter by blast
    then show "\<forall>r\<in>set (drop k ds). date r \<noteq> None"
      using set_drop_subset [of k ds] by blast
    have "\<forall>r\<in>set us. date r = None" unfolding us_def set_filter by blast
    then show "\<forall>r\<in>set (drop (k - length ds) us). date r = None"
      using set_drop_subset [of "k - length ds" us] by blast
    from srt have "sorted (drop k (map (\<lambda>r. the (date r)) ds))"
      by (rule sorted_wrt_drop)
    then show "sorted (map (\<lambda>r. the (date r)) (drop k ds))"
      by (simp add: drop_map)
  qed
qed

lemma scan_rows_leading_run:
  assumes "0 \<le> c" and "c < m"
    and "nat (m - c) \<le> length ys"
    and "list_all (\<lambda>v. v \<ge> t) (take (nat (m - c)) (map avg_players ys))"
  shows "scan_rows t m idx c ys = Some (max 0 (idx - c))"
  using assms
proof (induction ys arbitrary: idx c)
  case Nil
  then show ?case by simp
next
  case (Cons y ys)
  from Cons.prems(2) obtain k where k: "nat (m - c) = Suc k"
    by (cases "nat (m - c)") simp_all
  from Cons.prems(4) have y: "avg_players y \<ge> t" and
    rest: "list_all (\<lambda>v. v \<ge> t) (take k (map avg_players ys))"
    unfolding k by simp_all
  show ?case
  proof (cases "c + 1 \<ge> m")
    case True
    with Cons.prems(2) have "m = c + 1" by simp
    with y show ?thesis by simp
  next
    case False
    then have 1: "c + 1 < m" by simp
    have 0: "0 \<le> c + 1" using Cons.prems(1) by simp
    have kk: "nat (m - (c + 1)) = k" using k by simp
    have 2: "nat (m - (c + 1)) \<le> length ys" using Cons.prems(3) k kk by simp
    have 3: "list_all (\<lambda>v. v \<ge> t) (take (nat (m - (c + 1))) (map avg_players ys))"
      unfolding kk by (rule rest)
    have "scan_rows t m (idx + 1) (c + 1) ys = Some (max 0 (idx + 1 - (c + 1)))"
      by (rule Cons.IH [OF 0 1 2 3])
    with y False show ?thesis by simp
  qed
qed

lemma meaningful_start_after_cut:
  assumes m: "1 \<le> m" and found: "meaningful_start t m s = Some c"
  shows "meaningful_start t m (drop (nat c) s) = Some 0"
proof -
  from meaningful_start_SomeD [OF found] obtain i
    where f: "first_reach t m (map avg_players s) i" and c: "c = max 0 (int i - m + 1)"
    by blast
  let ?vs = "map avg_players s"
  let ?ys = "take (Suc i) ?vs"
  from f have i: "i < length s" and cnt: "m \<le> run_counter t 0 ?ys"
    by (simp_all add: first_reach_iff reaches_at_def)
  from i have l: "length ?ys = Suc i" by simp
  from cnt have "int (nat m) \<le> run_counter t 0 ?ys"
    by (simp add: run_counter_trailing)
  from trailing_run_qualifies [OF this]
  have n: "nat m \<le> Suc i" and q: "list_all (\<lambda>v. v \<ge> t) (drop (Suc i - nat m) ?ys)"
    unfolding l by simp_all
  from n m c have cn: "nat c = Suc i - nat m" by simp
  have "take (nat m) (drop (nat c) ?vs) = drop (nat c) (take (nat m + nat c) ?vs)"
    by (simp add: take_drop)
  also have "nat m + nat c = Suc i" using n cn by simp
  finally have run: "list_all (\<lambda>v. v \<ge> t) (take (nat m) (map avg_players (drop (nat c) s)))"
    using q cn by (simp add: drop_map)
  have len: "nat m \<le> length (drop (nat c) s)" using n cn i by simp
  have "scan_rows t m 0 0 (drop (nat c) s) = Some (max 0 (0 - 0))"
  proof (rule scan_rows_leading_run)
    show "(0::int) \<le> 0" by simp
    show "0 < m" using m by simp
    show "nat (m - 0) \<le> length (drop (nat c) s)" using len by simp
    show "list_all (\<lambda>v. v \<ge> t) (take (nat (m - 0)) (map avg_players (drop (nat c) s)))"
      using run by simp
  qed
  then show ?thesis by (simp add: meaningful_start_def)
qed

subsection \<open>Prefixes of a series, the two exits of the Cleaner, single-game tables\<close>

lemma reaches_at_prefix:
  assumes "j \<le> i" and "i < length vs"
  shows "reaches_at t m (take (Suc i) vs @ ws) j = reaches_at t m vs j"
proof -
  from assms have 1: "(take (Suc i) vs @ ws) ! j = vs ! j"
    by (simp add: nth_append)
  from assms have 2: "take (Suc j) (take (Suc i) vs @ ws) = take (Suc j) vs"
    by (simp add: min_def)
  from assms have 3: "j < length (take (Suc i) vs @ ws)" and 4: "j < length vs"
    by simp_all
  show ?thesis unfolding reaches_at_def 1 2 using 3 4 by simp
qed

lemma first_reach_prefix:
  assumes "first_reach t m vs i"
  shows "first_reach t m (take (Suc i) vs @ ws) i"
proof -
  from assms have r: "reaches_at t m vs i" and n: "\<forall>j<i. \<not> reaches_at t m vs j"
    by (simp_all add: first_reach_iff)
  from r have i: "i < length vs" by (simp add: reaches_at_def)
  have "reaches_at t m (take (Suc i) vs @ ws) i"
    using r reaches_at_prefix [OF order_refl i] by simp
  moreover have "\<forall>j<i. \<not> reaches_at t m (take (Suc i) vs @ ws) j"
  proof (intro allI impI)
    fix j assume "j < i"
    then have "j \<le> i" by simp
    from reaches_at_prefix [OF this i] n \<open>j < i\<close>
    show "\<not> reaches_at t m (take (Suc i) vs @ ws) j" by simp
  qed
  ultimately show ?thesis by (simp add: first_reach_iff)
qed

lemma clean_one_game_cut:
  assumes "meaningful_start t m (sort_values rows) = Some c"
  shows "clean_one_game t m rows = drop (nat c) (sort_values rows)"
  using assms by (simp add: clean_one_game_def)

lemma clean_one_game_no_cut:
  assumes "meaningful_start t m (sort_values rows) = None"
  shows "clean_one_game t m rows = sort_values rows"
  using assms by (simp add: clean_one_game_def)

subsection \<open>The sample tables, evaluated\<close>

lemma date_obs: "date (obs a g mo v) = to_datetime mo"
  by (simp add: date_def obs_def)

lemma avg_players_obs: "avg_players (obs a g mo v) = v"
  by (simp add: obs_def)

lemma game_name_obs: "game_name (obs a g mo v) = g"
  by (simp add: obs_def)

lemma to_datetime_samples:
  "to_datetime ''January 2024'' = Some (2024, 1)"
  "to_datetime ''February 2024'' = Some (2024, 2)"
  "to_datetime ''March 2024'' = Some (2024, 3)"
  "to_datetime ''April 2024'' = Some (2024, 4)"
  "to_datetime ''May 2024'' = Some (2024, 5)"
  "to_datetime ''June 2024'' = Some (2024, 6)"
  "to_datetime ''July 2024'' = Some (2024, 7)"
  "to_datetime ''August 2024'' = Some (2024, 8)"
  "to_datetime ''Last 30 Days'' = None"
  by (simp_all add: to_datetime_def is_space_def month_names_def lower_char_def is_digit_def
        digits_val_def digit_val_def in_ns_bounds_def)

lemma sort_values_sample_breakout:
  "sort_values sample_breakout =
     [obs 230410 ''Warframe'' ''January 2024'' 100,
      obs 230410 ''Warframe'' ''February 2024'' 600,
      obs 230410 ''Warframe'' ''March 2024'' 700,
      obs 230410 ''Warframe'' ''April 2024'' 800,
      obs 230410 ''Warframe'' ''May 2024'' 50,
      obs 230410 ''Warframe'' ''Last 30 Days'' 900]"
  by (simp add: sort_values_def sample_breakout_def date_obs to_datetime_samples)

lemma sort_values_sample_eight_months:
  "sort_values sample_eight_months =
     [obs 570 ''Dota 2'' ''January 2024'' 0,
      obs 570 ''Dota 2'' ''February 2024'' 0,
      obs 570 ''Dota 2'' ''March 2024'' 600,
      obs 570 ''Dota 2'' ''April 2024'' 700,
      obs 570 ''Dota 2'' ''May 2024'' 400,
      obs 570 ''Dota 2'' ''June 2024'' 800,
      obs 570 ''Dota 2'' ''July 2024'' 900,
      obs 570 ''Dota 2'' ''August 2024'' 900]"
  by (simp add: sort_values_def sample_eight_months_def date_obs to_datetime_samples)

lemma sort_values_sample_no_run:
  "sort_values sample_no_run =
     [obs 730 ''Counter-Strike 2'' ''January 2024'' 600,
      obs 730 ''Counter-Strike 2'' ''February 2024'' 100,
      obs 730 ''Counter-Strike 2'' ''March 2024'' 700,
      obs 730 ''Counter-Strike 2'' ''April 2024'' 200]"
  by (simp add: sort_values_def sample_no_run_def date_obs to_datetime_samples)

lemma sort_values_sample_two_months:
  "sort_values sample_two_months =
     [obs 730 ''Counter-Strike 2'' ''January 2024'' 600,
      obs 730 ''Counter-Strike 2'' ''February 2024'' 600]"
  by (simp add: sort_values_def sample_two_months_def date_obs to_datetime_samples)

lemma sort_values_sample_rolling:
  "sort_values sample_rolling =
     [obs 236390 ''War Thunder'' ''January 2024'' 0,
      obs 236390 ''War Thunder'' ''February 2024'' 600,
      obs 236390 ''War Thunder'' ''Last 30 Days'' 600]"
  by (simp add: sort_values_def sample_rolling_def date_obs to_datetime_samples)

lemma unique_single:
  assumes "xs \<noteq> []" and "\<forall>x\<in>set xs. x = n"
  shows "unique xs = [n]"
proof (cases xs)
  case Nil
  with assms(1) show ?thesis by simp
next
  case (Cons x xs')
  with assms(2) have x: "x = n" and "\<forall>y\<in>set xs'. \<not> y \<noteq> n" by simp_all
  then have "filter (\<lambda>y. y \<noteq> n) xs' = []"
    by (simp add: filter_empty_conv)
  with Cons x show ?thesis by simp
qed

lemma clean_game_data_single_game:
  assumes "rows \<noteq> []" and "\<forall>r\<in>set rows. game_name r = g"
  shows "clean_game_data t m rows = clean_one_game t m rows"
proof -
  have "map game_name rows \<noteq> []" using assms(1) by simp
  moreover have "\<forall>x\<in>set (map game_name rows). x = g" using assms(2) by simp
  ultimately have u: "unique (map game_name rows) = [g]" by (rule unique_single)
  have f: "filter (\<lambda>r. game_name r = g) rows = rows"
    using assms(2) by (rule filter_id_conv [THEN iffD2])
  show ?thesis unfolding clean_game_data_unfold u by (simp add: f)
qed

subsection \<open>Further facts used by the claims\<close>

lemma mset_sort_values: "mset (sort_values rows) = mset rows"
proof -
  have "mset (filter (\<lambda>r. date r \<noteq> None) rows) + mset (filter (\<lambda>r. \<not> date r \<noteq> None) rows)
          = mset rows"
    unfolding mset_filter by (rule multiset_partition [symmetric])
  then show ?thesis by (simp add: sort_values_def del: not_None_eq)
qed

lemma no_reach_if_no_run:
  assumes "\<not> has_run t m vs"
  shows "\<not> reaches_at t m vs j"
  using assms reaches_at_has_run by blast

lemma no_reach_if_all_below:
  assumes "\<forall>v\<in>set vs. v < t"
  shows "\<not> reaches_at t m vs j"
proof
  assume "reaches_at t m vs j"
  then have "j < length vs" and "vs ! j \<ge> t" by (simp_all add: reaches_at_def)
  then have "vs ! j \<in> set vs" by simp
  with assms have "vs ! j < t" by (rule bspec)
  with \<open>vs ! j \<ge> t\<close> show False by simp
qed

lemma scan_rows_values_only:
  assumes "map avg_players a = map avg_players b"
  shows "scan_rows t m idx c a = scan_rows t m idx c b"
proof -
  from assms have "length a = length b" by (rule map_eq_imp_length_eq)
  from this assms show ?thesis
    by (induction a b arbitrary: idx c rule: list_induct2) simp_all
qed

lemma undated_after_dated:
  assumes "i < j" and "j < length (sort_values rows)" and "date (sort_values rows ! i) = None"
  shows "date (sort_values rows ! j) = None"
proof -
  define ds where "ds = sort_key (\<lambda>r. the (date r)) (filter (\<lambda>r. date r \<noteq> None) rows)"
  define us where "us = filter (\<lambda>r. date r = None) rows"
  have s: "sort_values rows = ds @ us" unfolding ds_def us_def by (rule sort_values_def)
  have d: "\<forall>r\<in>set ds. date r \<noteq> None" unfolding ds_def set_sort set_filter by blast
  have u: "\<forall>r\<in>set us. date r = None" unfolding us_def set_filter by blast
  have "\<not> i < length ds"
  proof
    assume "i < length ds"
    then have "(ds @ us) ! i \<in> set ds" by (simp add: nth_append)
    with d have "date ((ds @ us) ! i) \<noteq> None" by (rule bspec)
    with assms(3) show False unfolding s by simp
  qed
  with assms(1) have "\<not> j < length ds" by simp
  then have "(ds @ us) ! j = us ! (j - length ds)" by (simp add: nth_append)
  moreover from \<open>\<not> j < length ds\<close> assms(2) have "j - length ds < length us"
    unfolding s by simp
  ultimately have "(ds @ us) ! j \<in> set us" by simp
  with u show ?thesis unfolding s by (rule bspec)
qed

lemma undated_sort_values:
  "filter (\<lambda>r. date r = None) (sort_values rows) = filter (\<lambda>r. date r = None) rows"
proof -
  define ds where "ds = sort_key (\<lambda>r. the (date r)) (filter (\<lambda>r. date r \<noteq> None) rows)"
  define us where "us = filter (\<lambda>r. date r = None) rows"
  have s: "sort_values rows = ds @ us" unfolding ds_def us_def by (rule sort_values_def)
  have "\<forall>r\<in>set ds. \<not> date r = None" unfolding ds_def set_sort set_filter by blast
  then have 1: "filter (\<lambda>r. date r = None) ds = []" by (rule filter_empty_conv [THEN iffD2])
  have "\<forall>r\<in>set us. date r = None" unfolding us_def set_filter by blast
  then have 2: "filter (\<lambda>r. date r = None) us = us" by (rule filter_id_conv [THEN iffD2])
  show ?thesis unfolding s filter_append 1 2 by (simp add: us_def)
qed

lemma to_datetime_not_available: "to_datetime ''n/a'' = None"
  by (simp add: to_datetime_def is_space_def month_names_def lower_char_def)

lemma sort_values_sample_undated:
  "sort_values sample_undated =
     [obs 440 ''Team Fortress 2'' ''January 2024'' 0,
      obs 440 ''Team Fortress 2'' ''February 2024'' 600,
      obs 440 ''Team Fortress 2'' ''Last 30 Days'' 700,
      obs 440 ''Team Fortress 2'' ''n/a'' 0]"
  by (simp add: sort_values_def sample_undated_def date_obs to_datetime_samples
        to_datetime_not_available)

lemma filter_arena:
  "filter (\<lambda>r. game_name r = ''Arena'') sample_shared_name =
     [obs 1 ''Arena'' ''March 2024'' 900,
      obs 1 ''Arena'' ''January 2024'' 0,
      obs 2 ''Arena'' ''April 2024'' 800,
      obs 2 ''Arena'' ''February 2024'' 0]"
  by (simp add: sample_shared_name_def game_name_obs)

lemma sort_values_arena:
  "sort_values
     [obs 1 ''Arena'' ''March 2024'' 900,
      obs 1 ''Arena'' ''January 2024'' 0,
      obs 2 ''Arena'' ''April 2024'' 800,
      obs 2 ''Arena'' ''February 2024'' 0] =
     [obs 1 ''Arena'' ''January 2024'' 0,
      obs 2 ''Arena'' ''February 2024'' 0,
      obs 1 ''Arena'' ''March 2024'' 900,
      obs 2 ''Arena'' ''April 2024'' 800]"
  by (simp add: sort_values_def date_obs to_datetime_samples)

subsection \<open>Sorting a series twice\<close>

lemma clean_one_game_keep_from_start:
  "clean_one_game t m rows = keep_from_start t m (sort_values rows)"
  by (simp add: clean_one_game_def keep_from_start_def Let_def)

lemma possible_sort_sort_values: "possible_sort rows (sort_values rows)"
  unfolding possible_sort_def
  using mset_sort_values chronological_sort_values undated_sort_values by blast

lemma possible_sort_refl:
  assumes "chronological s"
  shows "possible_sort s s"
  using assms by (simp add: possible_sort_def)

lemma chronological_keep_from_start:
  assumes "chronological s"
  shows "chronological (keep_from_start t m s)"
proof (cases "meaningful_start t m s")
  case None
  with assms show ?thesis by (simp add: keep_from_start_def)
next
  case (Some c)
  have "chronological (drop (nat c) s)" using assms by (rule chronological_drop)
  with Some show ?thesis by (simp add: keep_from_start_def)
qed

lemma dated_mset:
  assumes "mset a = mset b"
  shows "mset (filter (\<lambda>r. date r \<noteq> None) a) = mset (filter (\<lambda>r. date r \<noteq> None) b)"
  using assms unfolding mset_filter by (rule arg_cong)

lemma distinct_dates_mset:
  assumes "mset a = mset b" and "distinct_dates b"
  shows "distinct_dates a"
proof -
  let ?k = "\<lambda>r. the (date r)"
  have "mset (map ?k (filter (\<lambda>r. date r \<noteq> None) a))
          = mset (map ?k (filter (\<lambda>r. date r \<noteq> None) b))"
    using dated_mset [OF assms(1)] by (metis mset_map)
  then have "distinct (map ?k (filter (\<lambda>r. date r \<noteq> None) a))
               = distinct (map ?k (filter (\<lambda>r. date r \<noteq> None) b))"
    by (rule mset_eq_imp_distinct_iff)
  with assms(2) show ?thesis unfolding distinct_dates_def by blast
qed

lemma distinct_dates_drop:
  assumes "chronological s" and "distinct_dates s"
  shows "distinct_dates (drop k s)"
proof -
  define ds where "ds = filter (\<lambda>r. date r \<noteq> None) s"
  define us where "us = filter (\<lambda>r. date r = None) s"
  from assms(1) have split: "s = ds @ us"
    unfolding chronological_def ds_def us_def by blast
  have d: "\<forall>r\<in>set ds. date r \<noteq> None" unfolding ds_def set_filter by blast
  have u: "\<forall>r\<in>set us. \<not> date r \<noteq> None" unfolding us_def by simp
  have "\<forall>r\<in>set (drop k ds). date r \<noteq> None"
    using d set_drop_subset [of k ds] by blast
  then have 1: "filter (\<lambda>r. date r \<noteq> None) (drop k ds) = drop k ds"
    by (rule filter_id_conv [THEN iffD2])
  have "\<forall>r\<in>set (drop (k - length ds) us). \<not> date r \<noteq> None"
    using u set_drop_subset [of "k - length ds" us] by blast
  then have 2: "filter (\<lambda>r. date r \<noteq> None) (drop (k - length ds) us) = []"
    by (rule filter_empty_conv [THEN iffD2])
  have "filter (\<lambda>r. date r \<noteq> None) (drop k s) = drop k ds"
    unfolding split drop_append filter_append 1 2 by simp
  moreover from assms(2) have "distinct (map (\<lambda>r. the (date r)) ds)"
    unfolding distinct_dates_def ds_def .
  then have "distinct (map (\<lambda>r. the (date r)) (drop k ds))"
    by (simp add: drop_map [symmetric] distinct_drop)
  ultimately show ?thesis unfolding distinct_dates_def by simp
qed

lemma distinct_dates_keep_from_start:
  assumes "chronological s" and "distinct_dates s"
  shows "distinct_dates (keep_from_start t m s)"
proof (cases "meaningful_start t m s")
  case None
  with assms(2) show ?thesis by (simp add: keep_from_start_def)
next
  case (Some c)
  have "distinct_dates (drop (nat c) s)" using assms by (rule distinct_dates_drop)
  with Some show ?thesis by (simp add: keep_from_start_def)
qed

lemma possible_sort_unique:
  assumes dd: "distinct_dates x" and a: "possible_sort x a" and b: "possible_sort x b"
  shows "a = b"
proof -
  let ?k = "\<lambda>r. the (date r)"
  define da where "da = filter (\<lambda>r. date r \<noteq> None) a"
  define db where "db = filter (\<lambda>r. date r \<noteq> None) b"
  from a have ma: "mset a = mset x" and ca: "chronological a"
    and ua: "filter (\<lambda>r. date r = None) a = filter (\<lambda>r. date r = None) x"
    unfolding possible_sort_def by blast+
  from b have mb: "mset b = mset x" and cb: "chronological b"
    and ub: "filter (\<lambda>r. date r = None) b = filter (\<lambda>r. date r = None) x"
    unfolding possible_sort_def by blast+
  from ca have sa: "sorted (map ?k da)" and spa: "a = da @ filter (\<lambda>r. date r = None) a"
    unfolding chronological_def da_def by blast+
  from cb have sb: "sorted (map ?k db)" and spb: "b = db @ filter (\<lambda>r. date r = None) b"
    unfolding chronological_def db_def by blast+
  have "distinct_dates a" using ma dd by (rule distinct_dates_mset)
  then have dda: "distinct (map ?k da)" unfolding distinct_dates_def da_def .
  have "distinct_dates b" using mb dd by (rule distinct_dates_mset)
  then have ddb: "distinct (map ?k db)" unfolding distinct_dates_def db_def .
  have "mset a = mset b" using ma mb by simp
  then have mab: "mset da = mset db" unfolding da_def db_def by (rule dated_mset)
  then have sets: "set da = set db" by (rule mset_eq_setD)
  from dda have "inj_on ?k (set da)" by (simp add: distinct_map)
  with sets have inj: "inj_on ?k (set da \<union> set db)" by simp
  from inj sa dda sb ddb sets have "da = db"
    by (rule map_sorted_distinct_set_unique)
  with spa spb ua ub show ?thesis by metis
qed

lemma keep_from_start_again:
  assumes "1 \<le> m"
  shows "keep_from_start t m (keep_from_start t m s) = keep_from_start t m s"
proof (cases "meaningful_start t m s")
  case None
  then show ?thesis by (simp add: keep_from_start_def)
next
  case (Some c)
  with assms have "meaningful_start t m (drop (nat c) s) = Some 0"
    by (rule meaningful_start_after_cut)
  with Some show ?thesis by (simp add: keep_from_start_def)
qed

lemma second_pass_sorted_as_first_output:
  assumes "distinct_dates rows" and "possible_sort rows s"
    and "possible_sort (keep_from_start t m s) s'"
  shows "s' = keep_from_start t m s"
proof -
  from assms(2) have m: "mset s = mset rows" and c: "chronological s"
    unfolding possible_sort_def by blast+
  have d: "distinct_dates s" using m assms(1) by (rule distinct_dates_mset)
  have "distinct_dates (keep_from_start t m s)"
    using c d by (rule distinct_dates_keep_from_start)
  moreover have "possible_sort (keep_from_start t m s) (keep_from_start t m s)"
    using c by (intro possible_sort_refl chronological_keep_from_start)
  ultimately show ?thesis using assms(3) by (intro possible_sort_unique)
qed

text \<open>
  With equal dates the order of the sorted frame is open. In \<open>sample_tied\<close> the frame as
  it stands is sorted and no cut is made; the other order of its two May rows is sorted
  as well and brings two observations that meet the threshold together, so that a pass
  which sorts to it cuts. (numpy's quicksort keeps the order of rows with equal dates in
  a frame this small; in frames of more than sixteen rows it need not.)
\<close>

lemma tied_dates_leave_the_second_pass_open:
  "\<not> distinct_dates sample_tied
   \<and> possible_sort sample_tied sample_tied
   \<and> keep_from_start 500 2 sample_tied = sample_tied
   \<and> possible_sort sample_tied
        [obs 2 ''Arena'' ''May 2024'' 0,
         obs 1 ''Arena'' ''May 2024'' 600,
         obs 1 ''Arena'' ''June 2024'' 600,
         obs 2 ''Arena'' ''July 2024'' 0]
   \<and> keep_from_start 500 2
        [obs 2 ''Arena'' ''May 2024'' 0,
         obs 1 ''Arena'' ''May 2024'' 600,
         obs 1 ''Arena'' ''June 2024'' 600,
         obs 2 ''Arena'' ''July 2024'' 0] =
        [obs 1 ''Arena'' ''May 2024'' 600,
         obs 1 ''Arena'' ''June 2024'' 600,
         obs 2 ''Arena'' ''July 2024'' 0]"
  by (simp add: distinct_dates_def possible_sort_def chronological_def keep_from_start_def
        meaningful_start_def sample_tied_def date_obs avg_players_obs to_datetime_samples
        add_mset_commute)

section \<open>The claims about the Cleaner\<close>

text \<open>
  Claim C1. On the chronologically sorted series the Cleaner keeps a run-length counter
  of consecutive observations with \<^verbatim>\<open>avg_players >= min_avg_players\<close>, reset at every
  observation below the threshold. When position \<open>i\<close> is the first at which the counter
  reaches \<^verbatim>\<open>min_consecutive_months\<close>, the cut index is
  \<^verbatim>\<open>max(0, i - min_consecutive_months + 1)\<close>; the scan stops there (whatever follows
  position \<open>i\<close> has no influence on the cut index); and the output is the sorted series
  from the cut index to its end.
\<close>

theorem cleaner_cuts_at_first_full_run:
  assumes "first_reach t m (map avg_players (sort_values rows)) i"
  shows "meaningful_start t m (sort_values rows) = Some (max 0 (int i - m + 1))
       \<and> (\<forall>later. meaningful_start t m (take (Suc i) (sort_values rows) @ later)
                     = Some (max 0 (int i - m + 1)))
       \<and> clean_one_game t m rows = drop (nat (max 0 (int i - m + 1))) (sort_values rows)"
proof -
  have cut: "meaningful_start t m (sort_values rows) = Some (max 0 (int i - m + 1))"
    using assms by (rule meaningful_start_first)
  have stop: "meaningful_start t m (take (Suc i) (sort_values rows) @ later)
                = Some (max 0 (int i - m + 1))" for later
  proof -
    have "first_reach t m (take (Suc i) (map avg_players (sort_values rows))
            @ map avg_players later) i"
      using assms by (rule first_reach_prefix)
    then have "first_reach t m (map avg_players (take (Suc i) (sort_values rows) @ later)) i"
      by (simp add: take_map)
    then show ?thesis by (rule meaningful_start_first)
  qed
  have out: "clean_one_game t m rows = drop (nat (max 0 (int i - m + 1))) (sort_values rows)"
    using cut by (rule clean_one_game_cut)
  from cut stop out show ?thesis by blast
qed

theorem cleaner_cuts_at_first_full_run_witness:
  "first_reach 500 3 (map avg_players (sort_values sample_breakout)) 3
   \<and> meaningful_start 500 3 (sort_values sample_breakout) = Some 1
   \<and> clean_one_game 500 3 sample_breakout =
       [obs 230410 ''Warframe'' ''February 2024'' 600,
        obs 230410 ''Warframe'' ''March 2024'' 700,
        obs 230410 ''Warframe'' ''April 2024'' 800,
        obs 230410 ''Warframe'' ''May 2024'' 50,
        obs 230410 ''Warframe'' ''Last 30 Days'' 900]"
proof -
  have "first_reach 500 3 [100, 600, 700, 800, 50, 900] 3"
    by code_simp
  then have h: "first_reach 500 3 (map avg_players (sort_values sample_breakout)) 3"
    by (simp add: sort_values_sample_breakout avg_players_obs)
  from cleaner_cuts_at_first_full_run [OF h] h show ?thesis
    by (simp add: sort_values_sample_breakout)
qed

text \<open>
  Claim C2. A single game whose \<^verbatim>\<open>avg_players\<close> values are
  \<^verbatim>\<open>[0,0,600,700,400,800,900,900]\<close> in chronological order, cleaned with
  \<^verbatim>\<open>min_avg_players=500\<close> and \<^verbatim>\<open>min_consecutive_months=2\<close>: the cut index is 2 and
  the output is the suffix from index 2, with values \<^verbatim>\<open>[600,700,400,800,900,900]\<close>;
  this holds for the series and for the table function called on that one game.
\<close>

theorem example_series_cut_index_two:
  assumes "map avg_players (sort_values rows) = [0, 0, 600, 700, 400, 800, 900, 900]"
  shows "meaningful_start 500 2 (sort_values rows) = Some 2
       \<and> clean_one_game 500 2 rows = drop 2 (sort_values rows)
       \<and> map avg_players (clean_one_game 500 2 rows) = [600, 700, 400, 800, 900, 900]
       \<and> ((\<forall>r\<in>set rows. game_name r = g) \<longrightarrow>
            clean_game_data 500 2 rows = drop 2 (sort_values rows))"
proof -
  have "first_reach 500 2 [0, 0, 600, 700, 400, 800, 900, 900] 3"
    by code_simp
  then have "first_reach 500 2 (map avg_players (sort_values rows)) 3"
    unfolding assms .
  then have "meaningful_start 500 2 (sort_values rows) = Some (max 0 (int 3 - 2 + 1))"
    by (rule meaningful_start_first)
  then have cut: "meaningful_start 500 2 (sort_values rows) = Some 2" by simp
  then have out: "clean_one_game 500 2 rows = drop 2 (sort_values rows)"
    by (simp add: clean_one_game_def)
  have "map avg_players (drop 2 (sort_values rows)) = drop 2 (map avg_players (sort_values rows))"
    by (rule drop_map [symmetric])
  then have vals: "map avg_players (clean_one_game 500 2 rows) = [600, 700, 400, 800, 900, 900]"
    unfolding out assms by simp
  have table: "clean_game_data 500 2 rows = drop 2 (sort_values rows)"
    if g: "\<forall>r\<in>set rows. game_name r = g"
  proof -
    have "length (map avg_players (sort_values rows)) = 8" unfolding assms by simp
    then have "length rows = 8" by (simp add: length_sort_values)
    then have "rows \<noteq> []" by auto
    from this g have "clean_game_data 500 2 rows = clean_one_game 500 2 rows"
      by (rule clean_game_data_single_game)
    with out show ?thesis by simp
  qed
  from cut out vals table show ?thesis by blast
qed

theorem example_series_cut_index_two_witness:
  "map avg_players (sort_values sample_eight_months) = [0, 0, 600, 700, 400, 800, 900, 900]
   \<and> clean_game_data 500 2 sample_eight_months =
       [obs 570 ''Dota 2'' ''March 2024'' 600,
        obs 570 ''Dota 2'' ''April 2024'' 700,
        obs 570 ''Dota 2'' ''May 2024'' 400,
        obs 570 ''Dota 2'' ''June 2024'' 800,
        obs 570 ''Dota 2'' ''July 2024'' 900,
        obs 570 ''Dota 2'' ''August 2024'' 900]"
proof -
  have h: "map avg_players (sort_values sample_eight_months) = [0, 0, 600, 700, 400, 800, 900, 900]"
    by (simp add: sort_values_sample_eight_months avg_players_obs)
  have g: "\<forall>r\<in>set sample_eight_months. game_name r = ''Dota 2''"
    by (simp add: sample_eight_months_def game_name_obs)
  from example_series_cut_index_two [OF h, of "''Dota 2''"] g
  have "clean_game_data 500 2 sample_eight_months = drop 2 (sort_values sample_eight_months)"
    by blast
  with h show ?thesis by (simp add: sort_values_sample_eight_months)
qed

text \<open>
  Claim C3. A series in which no run of \<^verbatim>\<open>min_consecutive_months\<close> consecutive
  observations meets the threshold, and in particular a series with no observation that
  meets it, is returned whole: the output is the chronologically sorted input, which has
  exactly the observations of the input. (For \<^verbatim>\<open>min_consecutive_months\<close> of at least 1
  a cut is made exactly when such a run exists, see \<open>cut_found_iff_has_run\<close>.)
\<close>

theorem no_full_run_keeps_the_series:
  "(\<not> has_run t m (map avg_players (sort_values rows)) \<longrightarrow>
      clean_one_game t m rows = sort_values rows)
   \<and> ((\<forall>r\<in>set rows. avg_players r < t) \<longrightarrow> clean_one_game t m rows = sort_values rows)
   \<and> mset (sort_values rows) = mset rows"
proof (intro conjI impI)
  assume "\<not> has_run t m (map avg_players (sort_values rows))"
  then have "\<forall>j<length (sort_values rows).
               \<not> reaches_at t m (map avg_players (sort_values rows)) j"
    using no_reach_if_no_run by blast
  then have "meaningful_start t m (sort_values rows) = None"
    by (rule meaningful_start_none)
  then show "clean_one_game t m rows = sort_values rows"
    by (rule clean_one_game_no_cut)
next
  assume below: "\<forall>r\<in>set rows. avg_players r < t"
  have "\<forall>v\<in>set (map avg_players (sort_values rows)). v < t"
  proof
    fix v assume "v \<in> set (map avg_players (sort_values rows))"
    then obtain r where "r \<in> set rows" and "v = avg_players r"
      unfolding set_map set_sort_values by blast
    with below show "v < t" by simp
  qed
  then have "\<forall>j<length (sort_values rows).
               \<not> reaches_at t m (map avg_players (sort_values rows)) j"
    using no_reach_if_all_below by blast
  then have "meaningful_start t m (sort_values rows) = None"
    by (rule meaningful_start_none)
  then show "clean_one_game t m rows = sort_values rows"
    by (rule clean_one_game_no_cut)
next
  show "mset (sort_values rows) = mset rows" by (rule mset_sort_values)
qed

theorem no_full_run_keeps_the_series_witness:
  "\<not> has_run 500 2 (map avg_players (sort_values sample_no_run))
   \<and> clean_one_game 500 2 sample_no_run = sort_values sample_no_run
   \<and> list_all (\<lambda>r. avg_players r < 1000) sample_no_run
   \<and> clean_one_game 1000 2 sample_no_run = sort_values sample_no_run"
proof -
  have "\<not> has_run 500 2 [600, 100, 700, 200]"
    by code_simp
  then have h: "\<not> has_run 500 2 (map avg_players (sort_values sample_no_run))"
    by (simp add: sort_values_sample_no_run avg_players_obs)
  have b: "\<forall>r\<in>set sample_no_run. avg_players r < 1000"
    by (simp add: sample_no_run_def avg_players_obs)
  from no_full_run_keeps_the_series [of 500 2 sample_no_run] h
  have 1: "clean_one_game 500 2 sample_no_run = sort_values sample_no_run" by blast
  from no_full_run_keeps_the_series [of 1000 2 sample_no_run] b
  have 2: "clean_one_game 1000 2 sample_no_run = sort_values sample_no_run" by blast
  from b have "list_all (\<lambda>r. avg_players r < 1000) sample_no_run"
    unfolding list_all_iff .
  with h 1 2 show ?thesis by blast
qed

text \<open>
  Claim C4, as stated, for every \<^verbatim>\<open>min_consecutive_months\<close>: with the value 0 the cut
  index is one past the first observation that meets the threshold, and cleaning the
  cleaned series removes rows again.
\<close>

theorem cleaning_twice_counterexample:
  "clean_one_game 500 0 (clean_one_game 500 0 sample_two_months)
     \<noteq> clean_one_game 500 0 sample_two_months"
proof -
  have 1: "meaningful_start 500 0 (sort_values sample_two_months) = Some 1"
    by (simp add: sort_values_sample_two_months meaningful_start_def avg_players_obs)
  then have out: "clean_one_game 500 0 sample_two_months
                    = [obs 730 ''Counter-Strike 2'' ''February 2024'' 600]"
    by (simp add: clean_one_game_def sort_values_sample_two_months)
  have s: "sort_values [obs 730 ''Counter-Strike 2'' ''February 2024'' 600]
             = [obs 730 ''Counter-Strike 2'' ''February 2024'' 600]"
    by (simp add: sort_values_def date_obs to_datetime_samples)
  have "clean_one_game 500 0 [obs 730 ''Counter-Strike 2'' ''February 2024'' 600] = []"
    by (simp add: clean_one_game_def s meaningful_start_def avg_players_obs)
  with out show ?thesis by simp
qed

text \<open>
  Claim C4, amended. Cleaning is idempotent for every series whose dated observations
  have pairwise distinct dates, and for every threshold, when
  \<^verbatim>\<open>min_consecutive_months\<close> is at least 1, whatever sort the two passes use: the
  cleaned series is in chronological order already, so the second pass sorts it to
  itself, and if a cut was made its first \<^verbatim>\<open>min_consecutive_months\<close> observations
  all meet the threshold, so that the cut index found in it is 0. Here \<open>s\<close> is the sorted
  frame of the first pass and \<open>s'\<close> that of the second.
\<close>

theorem cleaning_twice_changes_nothing:
  assumes "1 \<le> m" and "distinct_dates rows"
    and "possible_sort rows s" and "possible_sort (keep_from_start t m s) s'"
  shows "keep_from_start t m s' = keep_from_start t m s
       \<and> keep_from_start t m s = clean_one_game t m rows
       \<and> clean_one_game t m (clean_one_game t m rows) = clean_one_game t m rows
       \<and> (\<forall>c. meaningful_start t m s = Some c \<longrightarrow> meaningful_start t m s' = Some 0)"
proof -
  have s': "s' = keep_from_start t m s"
    using assms(2,3,4) by (rule second_pass_sorted_as_first_output)
  have again: "keep_from_start t m (keep_from_start t m s) = keep_from_start t m s"
    using assms(1) by (rule keep_from_start_again)
  have s: "s = sort_values rows"
    using assms(2,3) possible_sort_sort_values by (rule possible_sort_unique)
  have out: "keep_from_start t m s = clean_one_game t m rows"
    unfolding s by (rule clean_one_game_keep_from_start [symmetric])
  have "possible_sort (keep_from_start t m s) (sort_values (keep_from_start t m s))"
    by (rule possible_sort_sort_values)
  with assms(2,3) have "sort_values (keep_from_start t m s) = keep_from_start t m s"
    by (rule second_pass_sorted_as_first_output)
  then have twice: "clean_one_game t m (clean_one_game t m rows) = clean_one_game t m rows"
    unfolding out clean_one_game_keep_from_start [of t m "clean_one_game t m rows"]
    using again out by simp
  have zero: "meaningful_start t m s' = Some 0" if "meaningful_start t m s = Some c" for c
  proof -
    from that have "keep_from_start t m s = drop (nat c) s" by (simp add: keep_from_start_def)
    moreover have "meaningful_start t m (drop (nat c) s) = Some 0"
      using assms(1) that by (rule meaningful_start_after_cut)
    ultimately show ?thesis unfolding s' by simp
  qed
  from s' again out twice zero show ?thesis by simp
qed

theorem cleaning_twice_changes_nothing_witness:
  "(1::int) \<le> 3
   \<and> distinct_dates sample_breakout
   \<and> possible_sort sample_breakout (sort_values sample_breakout)
   \<and> possible_sort (keep_from_start 500 3 (sort_values sample_breakout))
         (keep_from_start 500 3 (sort_values sample_breakout))
   \<and> clean_one_game 500 3 (clean_one_game 500 3 sample_breakout)
       = clean_one_game 500 3 sample_breakout
   \<and> length (clean_one_game 500 3 sample_breakout) = 5"
proof -
  have h: "(1::int) \<le> 3" by simp
  have d: "distinct_dates sample_breakout"
    by (simp add: distinct_dates_def sample_breakout_def date_obs to_datetime_samples)
  have p: "possible_sort sample_breakout (sort_values sample_breakout)"
    by (rule possible_sort_sort_values)
  have "chronological (keep_from_start 500 3 (sort_values sample_breakout))"
    using chronological_sort_values by (rule chronological_keep_from_start)
  then have q: "possible_sort (keep_from_start 500 3 (sort_values sample_breakout))
                  (keep_from_start 500 3 (sort_values sample_breakout))"
    by (rule possible_sort_refl)
  have "meaningful_start 500 3 (sort_values sample_breakout) = Some 1"
    by (simp add: sort_values_sample_breakout meaningful_start_def avg_players_obs)
  then have l: "length (clean_one_game 500 3 sample_breakout) = 5"
    by (simp add: clean_one_game_def sort_values_sample_breakout)
  from cleaning_twice_changes_nothing [OF h d p q] h d p q l show ?thesis
    by simp
qed

text \<open>
  Claim C5. The cleaned series is never longer than the series it was made from, and
  the cleaned table never longer than the table.
\<close>

theorem cleaned_is_not_longer:
  "length (clean_one_game t m rows) \<le> length rows
   \<and> length (clean_game_data t m df) \<le> length df"
  using length_clean_one_game length_clean_game_data by blast

theorem cleaned_is_not_longer_witness:
  "length (clean_one_game 500 2 sample_rolling) \<le> 3
   \<and> length (clean_game_data 500 2 sample_shared_name) \<le> 5"
proof -
  have "length sample_rolling = 3" by (simp add: sample_rolling_def)
  moreover have "length sample_shared_name = 5" by (simp add: sample_shared_name_def)
  ultimately show ?thesis
    using cleaned_is_not_longer [of 500 2 sample_rolling sample_shared_name] by simp
qed

text \<open>
  Claim C6, as stated: rows whose label does not parse never increment the counter.
  In the sample the only run of two observations that meet the threshold ends at the
  ``Last 30 Days'' row; the code cuts there, a scan without that row would not.
\<close>

theorem undated_rows_are_scanned_counterexample:
  "date (obs 236390 ''War Thunder'' ''Last 30 Days'' 600) = None
   \<and> clean_excluding_undated 500 2 sample_rolling =
       [obs 236390 ''War Thunder'' ''January 2024'' 0,
        obs 236390 ''War Thunder'' ''February 2024'' 600,
        obs 236390 ''War Thunder'' ''Last 30 Days'' 600]
   \<and> clean_one_game 500 2 sample_rolling =
       [obs 236390 ''War Thunder'' ''February 2024'' 600,
        obs 236390 ''War Thunder'' ''Last 30 Days'' 600]
   \<and> clean_one_game 500 2 sample_rolling \<noteq> clean_excluding_undated 500 2 sample_rolling"
proof -
  have 1: "date (obs 236390 ''War Thunder'' ''Last 30 Days'' 600) = None"
    by (simp add: date_obs to_datetime_samples)
  have 2: "clean_excluding_undated 500 2 sample_rolling =
       [obs 236390 ''War Thunder'' ''January 2024'' 0,
        obs 236390 ''War Thunder'' ''February 2024'' 600,
        obs 236390 ''War Thunder'' ''Last 30 Days'' 600]"
    by (simp add: clean_excluding_undated_def sort_values_sample_rolling date_obs
          to_datetime_samples meaningful_start_def avg_players_obs)
  have 3: "clean_one_game 500 2 sample_rolling =
       [obs 236390 ''War Thunder'' ''February 2024'' 600,
        obs 236390 ''War Thunder'' ''Last 30 Days'' 600]"
    by (simp add: clean_one_game_def sort_values_sample_rolling meaningful_start_def
          avg_players_obs)
  have 4: "clean_one_game 500 2 sample_rolling \<noteq> clean_excluding_undated 500 2 sample_rolling"
    unfolding 2 3 by simp
  from 1 2 3 4 show ?thesis by blast
qed

text \<open>
  Claim C6, amended. Observations whose label does not parse are sorted to the end of
  the series, in the order they had; they take part in the threshold scan like every
  other observation (the cut index depends on nothing but the sequence of
  \<^verbatim>\<open>avg_players\<close> values of the sorted series); and when no cut point is found they
  are all in the output.
\<close>

theorem undated_rows_last_scanned_and_kept:
  "(\<forall>i j. i < j \<and> j < length (sort_values rows) \<and> date (sort_values rows ! i) = None \<longrightarrow>
           date (sort_values rows ! j) = None)
   \<and> filter (\<lambda>r. date r = None) (sort_values rows) = filter (\<lambda>r. date r = None) rows
   \<and> (\<forall>other. map avg_players other = map avg_players (sort_values rows) \<longrightarrow>
           meaningful_start t m other = meaningful_start t m (sort_values rows))
   \<and> (meaningful_start t m (sort_values rows) = None \<longrightarrow>
         clean_one_game t m rows = sort_values rows
         \<and> filter (\<lambda>r. date r = None) (clean_one_game t m rows)
             = filter (\<lambda>r. date r = None) rows)"
proof (intro conjI allI impI)
  fix i j
  assume "i < j \<and> j < length (sort_values rows) \<and> date (sort_values rows ! i) = None"
  then show "date (sort_values rows ! j) = None"
    using undated_after_dated by blast
next
  show "filter (\<lambda>r. date r = None) (sort_values rows) = filter (\<lambda>r. date r = None) rows"
    by (rule undated_sort_values)
next
  fix other :: "row list"
  assume "map avg_players other = map avg_players (sort_values rows)"
  then show "meaningful_start t m other = meaningful_start t m (sort_values rows)"
    unfolding meaningful_start_def by (rule scan_rows_values_only)
next
  assume "meaningful_start t m (sort_values rows) = None"
  then show "clean_one_game t m rows = sort_values rows"
    by (rule clean_one_game_no_cut)
next
  assume "meaningful_start t m (sort_values rows) = None"
  then have "clean_one_game t m rows = sort_values rows"
    by (rule clean_one_game_no_cut)
  then show "filter (\<lambda>r. date r = None) (clean_one_game t m rows)
               = filter (\<lambda>r. date r = None) rows"
    by (simp only: undated_sort_values)
qed

theorem undated_rows_last_scanned_and_kept_witness:
  "date (sort_values sample_undated ! 2) = None
   \<and> date (sort_values sample_undated ! 3) = None
   \<and> meaningful_start 500 3 (sort_values sample_undated) = None
   \<and> meaningful_start 500 3 (map (obs 0 [] []) [0, 600, 700, 0]) = None
   \<and> clean_one_game 500 3 sample_undated = sort_values sample_undated
   \<and> filter (\<lambda>r. date r = None) (clean_one_game 500 3 sample_undated) =
       [obs 440 ''Team Fortress 2'' ''Last 30 Days'' 700,
        obs 440 ''Team Fortress 2'' ''n/a'' 0]"
proof -
  note inst = undated_rows_last_scanned_and_kept [of sample_undated 500 3]
  have d2: "date (sort_values sample_undated ! 2) = None"
    by (simp add: sort_values_sample_undated date_obs to_datetime_samples)
  have l: "(2::nat) < 3 \<and> 3 < length (sort_values sample_undated)"
    by (simp add: sort_values_sample_undated)
  from inst d2 l have d3: "date (sort_values sample_undated ! 3) = None"
    by blast
  have none: "meaningful_start 500 3 (sort_values sample_undated) = None"
    by (simp add: sort_values_sample_undated meaningful_start_def avg_players_obs)
  have same: "map avg_players (map (obs 0 [] []) [0, 600, 700, 0])
                = map avg_players (sort_values sample_undated)"
    by (simp add: sort_values_sample_undated avg_players_obs)
  from inst same none have other: "meaningful_start 500 3 (map (obs 0 [] []) [0, 600, 700, 0]) = None"
    by metis
  from inst none have out: "clean_one_game 500 3 sample_undated = sort_values sample_undated"
    and und: "filter (\<lambda>r. date r = None) (clean_one_game 500 3 sample_undated)
                = filter (\<lambda>r. date r = None) sample_undated"
    by blast+
  have "filter (\<lambda>r. date r = None) sample_undated =
       [obs 440 ''Team Fortress 2'' ''Last 30 Days'' 700,
        obs 440 ''Team Fortress 2'' ''n/a'' 0]"
    by (simp add: sample_undated_def date_obs to_datetime_samples to_datetime_not_available)
  with d2 d3 none other out und show ?thesis by simp
qed

text \<open>
  Claim C10. The Cleaner partitions the table by \<^verbatim>\<open>game_name\<close>, not by
  \<^verbatim>\<open>appid\<close>: the rows of the output that carry a name are the result of cleaning, as
  one series with one cut index, all rows of the input that carry that name, whichever
  appids they have; a table whose rows all carry one name is cleaned as one series.
\<close>

theorem cleaner_groups_by_game_name:
  "filter (\<lambda>r. game_name r = n) (clean_game_data t m df)
     = clean_one_game t m (filter (\<lambda>r. game_name r = n) df)
   \<and> (df \<noteq> [] \<and> (\<forall>r\<in>set df. game_name r = n) \<longrightarrow>
         clean_game_data t m df = clean_one_game t m df)"
  using filter_name_clean_game_data clean_game_data_single_game by blast

theorem cleaner_groups_by_game_name_witness:
  "appid (obs 1 ''Arena'' ''March 2024'' 900) \<noteq> appid (obs 2 ''Arena'' ''April 2024'' 800)
   \<and> filter (\<lambda>r. game_name r = ''Arena'') (clean_game_data 500 2 sample_shared_name) =
       [obs 1 ''Arena'' ''March 2024'' 900,
        obs 2 ''Arena'' ''April 2024'' 800]"
proof -
  have "clean_one_game 500 2
          [obs 1 ''Arena'' ''March 2024'' 900,
           obs 1 ''Arena'' ''January 2024'' 0,
           obs 2 ''Arena'' ''April 2024'' 800,
           obs 2 ''Arena'' ''February 2024'' 0] =
          [obs 1 ''Arena'' ''March 2024'' 900,
           obs 2 ''Arena'' ''April 2024'' 800]"
    by (simp add: clean_one_game_def sort_values_arena meaningful_start_def avg_players_obs)
  with cleaner_groups_by_game_name [of "''Arena''" 500 2 sample_shared_name]
  show ?thesis by (simp add: filter_arena obs_def)
qed

section \<open>Properties of the Store Loader\<close>

subsection \<open>Splitting a label into words\<close>

lemma split_from_trailing_space:
  assumes "is_space c"
  shows "split_from cur (s @ [c]) = split_from cur s"
  using assms by (induction s arbitrary: cur) simp_all

lemma py_split_strip_right:
  "py_split (rev (dropWhile is_space (rev s))) = py_split s"
proof (induction s rule: rev_induct)
  case Nil
  then show ?case by simp
next
  case (snoc c s)
  show ?case
  proof (cases "is_space c")
    case True
    then have "py_split (s @ [c]) = py_split s"
      unfolding py_split_def by (rule split_from_trailing_space)
    with True snoc show ?thesis by simp
  next
    case False
    then show ?thesis by simp
  qed
qed

lemma py_split_strip_left: "py_split (dropWhile is_space s) = py_split s"
  by (induction s) (simp_all add: py_split_def)

lemma py_split_strip: "py_split (py_strip s) = py_split s"
  unfolding py_strip_def py_split_strip_right py_split_strip_left ..

lemma parse_month_year_rolling:
  assumes "py_in ''Last 30 Days'' s"
  shows "parse_month_year now s = (Some (fst now), Some (snd now))"
  using assms by (simp add: parse_month_year_def)

lemma parse_month_year_null:
  assumes "\<not> py_in ''Last 30 Days'' s"
    and "length (py_split s) < 2 \<or> py_int (py_split s ! 1) = None"
  shows "parse_month_year now s = (None, None)"
  using assms by (auto simp: parse_month_year_def py_split_strip Let_def)

lemma parse_month_year_default_month:
  assumes "\<not> py_in ''Last 30 Days'' s"
    and "2 \<le> length (py_split s)"
    and "py_int (py_split s ! 1) = Some y"
    and "map_of month_mapping (py_split s ! 0) = None"
  shows "parse_month_year now s = (Some y, Some 1)"
  using assms by (simp add: parse_month_year_def py_split_strip Let_def)

lemma parse_month_year_named_month:
  assumes "\<not> py_in ''Last 30 Days'' s"
    and "2 \<le> length (py_split s)"
    and "py_int (py_split s ! 1) = Some y"
    and "map_of month_mapping (py_split s ! 0) = Some k"
  shows "parse_month_year now s = (Some y, Some k)"
  using assms by (simp add: parse_month_year_def py_split_strip Let_def)

subsection \<open>The digit limit of \<^verbatim>\<open>int\<close>\<close>

lemma digits_val_zeros: "digits_val (replicate n (CHR ''0'')) = 0"
proof -
  have "foldl (\<lambda>acc c. 10 * acc + digit_val c) 0 (replicate n (CHR ''0'')) = 0"
    by (induction n) (simp_all add: digit_val_def)
  then show ?thesis by (simp add: digits_val_def)
qed

lemma py_in_zeros: "\<not> py_in ''__'' (replicate n (CHR ''0''))"
  by (induction n) simp_all

lemma py_int_zeros:
  "py_int (replicate n (CHR ''0'')) = (if 0 < n \<and> n \<le> 4300 then Some 0 else None)"
proof (cases n)
  case 0
  then show ?thesis by (simp add: py_int_def int_literal_def)
next
  case (Suc k)
  have d: "is_digit (CHR ''0'')" by (simp add: is_digit_def)
  have f: "filter is_digit (replicate n (CHR ''0'')) = replicate n (CHR ''0'')"
    using d by simp
  have g: "filter (\<lambda>c. c \<noteq> CHR ''_'') (replicate n (CHR ''0'')) = replicate n (CHR ''0'')"
    by simp
  have l: "list_all (\<lambda>c. is_digit c \<or> c = CHR ''_'') (replicate n (CHR ''0''))"
    using d by (simp add: list_all_iff)
  have "int_literal (replicate n (CHR ''0'')) = (n \<le> 4300)"
    unfolding int_literal_def f using Suc d l py_in_zeros [of n]
    by (simp add: last_replicate)
  moreover have "take 1 (replicate n (CHR ''0'')) = ''0''" using Suc by simp
  ultimately show ?thesis
    using Suc by (simp add: py_int_def Let_def g digits_val_zeros del: replicate_Suc)
qed

lemma py_int_digit_limit:
  "py_int (replicate 4300 (CHR ''0'')) = Some 0 \<and> py_int (replicate 4301 (CHR ''0'')) = None"
  by (simp add: py_int_zeros)

subsection \<open>The results of \<^verbatim>\<open>parse_month_year\<close>\<close>

text \<open>
  What the parser returns, case by case: the current year and month for a label that
  contains \<^verbatim>\<open>"Last 30 Days"\<close>; \<open>(None, None)\<close> for any other label that has fewer than
  two words or whose second word \<^verbatim>\<open>int\<close> refuses; and otherwise the year of the second
  word with the number of the month the first word names, or 1 when it names none.
\<close>

lemma parse_month_year_cases:
  "parse_month_year now ''July 2025'' = (Some 2025, Some 7)
   \<and> (rolling_label s \<longrightarrow> parse_month_year now s = (Some (fst now), Some (snd now)))
   \<and> (\<not> rolling_label s \<and> (length (py_split s) < 2 \<or> py_int (py_split s ! 1) = None) \<longrightarrow>
         parse_month_year now s = (None, None))
   \<and> (\<not> rolling_label s \<and> 2 \<le> length (py_split s) \<and> py_int (py_split s ! 1) = Some y \<longrightarrow>
         parse_month_year now s =
           (Some y, Some (case map_of month_mapping (py_split s ! 0) of
                            Some k \<Rightarrow> k | None \<Rightarrow> 1)))"
proof (intro conjI impI)
  show "parse_month_year now ''July 2025'' = (Some 2025, Some 7)"
    by code_simp
next
  assume "rolling_label s"
  then show "parse_month_year now s = (Some (fst now), Some (snd now))"
    unfolding rolling_label_def by (rule parse_month_year_rolling)
next
  assume "\<not> rolling_label s \<and> (length (py_split s) < 2 \<or> py_int (py_split s ! 1) = None)"
  then show "parse_month_year now s = (None, None)"
    unfolding rolling_label_def using parse_month_year_null by blast
next
  assume a: "\<not> rolling_label s \<and> 2 \<le> length (py_split s) \<and> py_int (py_split s ! 1) = Some y"
  show "parse_month_year now s =
          (Some y, Some (case map_of month_mapping (py_split s ! 0) of
                           Some k \<Rightarrow> k | None \<Rightarrow> 1))"
  proof (cases "map_of month_mapping (py_split s ! 0)")
    case None
    with a show ?thesis
      unfolding rolling_label_def using parse_month_year_default_month by simp
  next
    case (Some k)
    with a show ?thesis
      unfolding rolling_label_def using parse_month_year_named_month by simp
  qed
qed

subsection \<open>The statements of a completed import\<close>

lemma in_order_Returned_Cons:
  assumes "in_order (step # steps) w = (Returned, w'')"
  obtains w' where "step w = (Returned, w')" and "in_order steps w' = (Returned, w'')"
proof -
  obtain out w' where s: "step w = (out, w')" by (cases "step w")
  show ?thesis
  proof (cases out)
    case Returned
    with s assms have "in_order steps w' = (Returned, w'')" by simp
    with s Returned show ?thesis using that by simp
  next
    case (Raised e)
    with s assms show ?thesis by simp
  next
    case Exited
    with s assms show ?thesis by simp
  qed
qed

lemma say_connect: "say m w = (out, w') \<Longrightarrow> connect d w' = connect d w"
  by (auto simp: say_def connect_def)

lemma execute_Returned:
  assumes "execute d stmt w = (Returned, w')"
  shows "stmt (connect d w) = Inr (connect d w')"
  using assms by (auto simp: execute_def connect_def split: sum.splits)

lemma create_view_keeps_tables:
  assumes "create_view_if_not_exists n db = Inr db'"
  shows "tables db' = tables db \<and> indexes db' = indexes db"
  using assms by (auto simp: create_view_if_not_exists_def split: if_splits)

lemma execute_view_keeps_tables:
  assumes "execute d (create_view_if_not_exists n) w = (Returned, w')"
  shows "tables (connect d w') = tables (connect d w)
       \<and> indexes (connect d w') = indexes (connect d w)"
  using execute_Returned [OF assms] by (rule create_view_keeps_tables)

lemma create_summary_views_keeps_tables:
  assumes "create_summary_views d w = (Returned, w')"
  shows "tables (connect d w') = tables (connect d w)
       \<and> indexes (connect d w') = indexes (connect d w)"
proof -
  from assms obtain w1 where 1: "execute d (create_view_if_not_exists ''latest_player_data'') w = (Returned, w1)"
    and r1: "in_order
       [execute d (create_view_if_not_exists ''top_games_avg''),
        execute d (create_view_if_not_exists ''yearly_trends''),
        say ViewsCreated] w1 = (Returned, w')"
    unfolding create_summary_views_def by (rule in_order_Returned_Cons)
  from r1 obtain w2 where 2: "execute d (create_view_if_not_exists ''top_games_avg'') w1 = (Returned, w2)"
    and r2: "in_order
       [execute d (create_view_if_not_exists ''yearly_trends''),
        say ViewsCreated] w2 = (Returned, w')"
    by (rule in_order_Returned_Cons)
  from r2 obtain w3 where 3: "execute d (create_view_if_not_exists ''yearly_trends'') w2 = (Returned, w3)"
    and r3: "in_order [say ViewsCreated] w3 = (Returned, w')"
    by (rule in_order_Returned_Cons)
  from r3 obtain w4 where 4: "say ViewsCreated w3 = (Returned, w4)"
    and r4: "in_order [] w4 = (Returned, w')"
    by (rule in_order_Returned_Cons)
  from r4 have "w4 = w'" by simp
  with 4 have c: "connect d w' = connect d w3" by (simp add: say_connect)
  from execute_view_keeps_tables [OF 1] execute_view_keeps_tables [OF 2]
    execute_view_keeps_tables [OF 3] c
  show ?thesis by simp
qed

lemma pandas_execute_Returned:
  assumes "pandas_execute d stmt w = (Returned, w')"
  shows "stmt (connect d w) = Inr (connect d w')"
proof -
  obtain out w1 where e: "execute d stmt w = (out, w1)" by (cases "execute d stmt w")
  with assms have "out = Returned \<and> w1 = w'"
    by (cases out) (simp_all add: pandas_execute_def)
  with e have "execute d stmt w = (Returned, w')" by simp
  then show ?thesis by (rule execute_Returned)
qed

lemma create_table_Inr:
  assumes "create_table name cols db = Inr db'"
  shows "tables db' = (tables db)(name \<mapsto> cols)"
  using assms by (auto simp: create_table_def split: if_splits)

lemma drop_table_Inr:
  assumes "drop_table name db = Inr db'"
  shows "tables db' = (tables db)(name := None)"
  using assms by (auto simp: drop_table_def split: if_splits)

lemma to_sql_replace_tables:
  assumes "to_sql_replace d name cols w = (Returned, w')"
  shows "tables (connect d w') = (tables (connect d w))(name \<mapsto> map frame_column cols)"
proof (cases "tables (connect d w) name \<noteq> None \<or> name \<in> set (views (connect d w))")
  case True
  with assms have "in_order
             [pandas_execute d (drop_table name),
              pandas_execute d (create_table name (map frame_column cols))] w = (Returned, w')"
    by (simp add: to_sql_replace_def)
  then obtain w1 where 1: "pandas_execute d (drop_table name) w = (Returned, w1)"
    and r1: "in_order [pandas_execute d (create_table name (map frame_column cols))] w1
               = (Returned, w')"
    by (rule in_order_Returned_Cons)
  from r1 obtain w2
    where 2: "pandas_execute d (create_table name (map frame_column cols)) w1 = (Returned, w2)"
    and r2: "in_order [] w2 = (Returned, w')"
    by (rule in_order_Returned_Cons)
  from r2 have e: "w2 = w'" by simp
  have "tables (connect d w1) = (tables (connect d w))(name := None)"
    using pandas_execute_Returned [OF 1] by (rule drop_table_Inr)
  moreover have "tables (connect d w2) = (tables (connect d w1))(name \<mapsto> map frame_column cols)"
    using pandas_execute_Returned [OF 2] by (rule create_table_Inr)
  ultimately show ?thesis using e by simp
next
  case False
  with assms have "pandas_execute d (create_table name (map frame_column cols)) w = (Returned, w')"
    by (simp add: to_sql_replace_def)
  from pandas_execute_Returned [OF this] show ?thesis by (rule create_table_Inr)
qed

lemma to_sql_replace_table:
  assumes "to_sql_replace d name cols w = (Returned, w')"
  shows "tables (connect d w') name = Some (map frame_column cols)"
  using to_sql_replace_tables [OF assms] by simp

lemma to_sql_replace_other_table:
  assumes "to_sql_replace d name cols w = (Returned, w')" and "n \<noteq> name"
  shows "tables (connect d w') n = tables (connect d w) n"
  using to_sql_replace_tables [OF assms(1)] assms(2) by simp

lemma add_year_and_month_num_Returned:
  assumes "add_year_and_month_num df w = (Returned, w')"
  shows "w' = w"
  using assms by (simp add: add_year_and_month_num_def split: if_splits)

lemma frame_columns_not_stated:
  "\<not> stated_player_history_table
       (map frame_column
          [''appid'', ''month'', ''avg_players'', ''peak_players'', ''year'', ''month_num''])"
  by (simp add: stated_player_history_table_def frame_column_def)

lemma completed_import_schema:
  assumes csv: "csv_files w csv_file = Some df"
    and fin: "import_csv_to_sqlite csv_file db_file w = (Returned, w')"
  shows "tables (connect db_file w') ''games'' = Some (map frame_column [''appid'', ''game_name''])
       \<and> tables (connect db_file w') ''player_history''
           = Some (map frame_column
               [''appid'', ''month'', ''avg_players'', ''peak_players'', ''year'', ''month_num''])
       \<and> \<not> conforms_to_stated_schema (connect db_file w')"
proof -
  let ?hist = "[''appid'', ''month'', ''avg_players'', ''peak_players'', ''year'', ''month_num'']"
  from fin csv have r0:
    "in_order
       [say (LoadingData csv_file),
        say (LoadedRecords (length df)),
        sqlite3_connect db_file,
        create_database_schema db_file,
        say ProcessingGames,
        to_sql_replace db_file ''games'' [''appid'', ''game_name''],
        say (InsertedGames (length (games_df df))),
        say ProcessingHistory,
        add_year_and_month_num df,
        to_sql_replace db_file ''player_history'' ?hist,
        say (InsertedHistory (length (history_df (clock w) df))),
        create_summary_views db_file,
        say (DatabaseCreated db_file)] w = (Returned, w')"
    by (simp add: import_csv_to_sqlite_def)
  from r0 obtain w1 where s1: "say (LoadingData csv_file) w = (Returned, w1)"
    and r1: "in_order
       [say (LoadedRecords (length df)),
        sqlite3_connect db_file,
        create_database_schema db_file,
        say ProcessingGames,
        to_sql_replace db_file ''games'' [''appid'', ''game_name''],
        say (InsertedGames (length (games_df df))),
        say ProcessingHistory,
        add_year_and_month_num df,
        to_sql_replace db_file ''player_history'' ?hist,
        say (InsertedHistory (length (history_df (clock w) df))),
        create_summary_views db_file,
        say (DatabaseCreated db_file)] w1 = (Returned, w')"
    by (rule in_order_Returned_Cons)
  from r1 obtain w2 where s2: "say (LoadedRecords (length df)) w1 = (Returned, w2)"
    and r2: "in_order
       [sqlite3_connect db_file,
        create_database_schema db_file,
        say ProcessingGames,
        to_sql_replace db_file ''games'' [''appid'', ''game_name''],
        say (InsertedGames (length (games_df df))),
        say ProcessingHistory,
        add_year_and_month_num df,
        to_sql_replace db_file ''player_history'' ?hist,
        say (InsertedHistory (length (history_df (clock w) df))),
        create_summary_views db_file,
        say (DatabaseCreated db_file)] w2 = (Returned, w')"
    by (rule in_order_Returned_Cons)
  from r2 obtain w3 where s3: "sqlite3_connect db_file w2 = (Returned, w3)"
    and r3: "in_order
       [create_database_schema db_file,
        say ProcessingGames,
        to_sql_replace db_file ''games'' [''appid'', ''game_name''],
        say (InsertedGames (length (games_df df))),
        say ProcessingHistory,
        add_year_and_month_num df,
        to_sql_replace db_file ''player_history'' ?hist,
        say (InsertedHistory (length (history_df (clock w) df))),
        create_summary_views db_file,
        say (DatabaseCreated db_file)] w3 = (Returned, w')"
    by (rule in_order_Returned_Cons)
  from r3 obtain w4 where s4: "create_database_schema db_file w3 = (Returned, w4)"
    and r4: "in_order
       [say ProcessingGames,
        to_sql_replace db_file ''games'' [''appid'', ''game_name''],
        say (InsertedGames (length (games_df df))),
        say ProcessingHistory,
        add_year_and_month_num df,
        to_sql_replace db_file ''player_history'' ?hist,
        say (InsertedHistory (length (history_df (clock w) df))),
        create_summary_views db_file,
        say (DatabaseCreated db_file)] w4 = (Returned, w')"
    by (rule in_order_Returned_Cons)
  from r4 obtain w5 where s5: "say ProcessingGames w4 = (Returned, w5)"
    and r5: "in_order
       [to_sql_replace db_file ''games'' [''appid'', ''game_name''],
        say (InsertedGames (length (games_df df))),
        say ProcessingHistory,
        add_year_and_month_num df,
        to_sql_replace db_file ''player_history'' ?hist,
        say (InsertedHistory (length (history_df (clock w) df))),
        create_summary_views db_file,
        say (DatabaseCreated db_file)] w5 = (Returned, w')"
    by (rule in_order_Returned_Cons)
  from r5 obtain w6 where s6: "to_sql_replace db_file ''games'' [''appid'', ''game_name''] w5 = (Returned, w6)"
    and r6: "in_order
       [say (InsertedGames (length (games_df df))),
        say ProcessingHistory,
        add_year_and_month_num df,
        to_sql_replace db_file ''player_history'' ?hist,
        say (InsertedHistory (length (history_df (clock w) df))),
        create_summary_views db_file,
        say (DatabaseCreated db_file)] w6 = (Returned, w')"
    by (rule in_order_Returned_Cons)
  from r6 obtain w7 where s7: "say (InsertedGames (length (games_df df))) w6 = (Returned, w7)"
    and r7: "in_order
       [say ProcessingHistory,
        add_year_and_month_num df,
        to_sql_replace db_file ''player_history'' ?hist,
        say (InsertedHistory (length (history_df (clock w) df))),
        create_summary_views db_file,
        say (DatabaseCreated db_file)] w7 = (Returned, w')"
    by (rule in_order_Returned_Cons)
  from r7 obtain w8 where s8: "say ProcessingHistory w7 = (Returned, w8)"
    and r8: "in_order
       [add_year_and_month_num df,
        to_sql_replace db_file ''player_history'' ?hist,
        say (InsertedHistory (length (history_df (clock w) df))),
        create_summary_views db_file,
        say (DatabaseCreated db_file)] w8 = (Returned, w')"
    by (rule in_order_Returned_Cons)
  from r8 obtain w9 where s9: "add_year_and_month_num df w8 = (Returned, w9)"
    and r9: "in_order
       [to_sql_replace db_file ''player_history'' ?hist,
        say (InsertedHistory (length (history_df (clock w) df))),
        create_summary_views db_file,
        say (DatabaseCreated db_file)] w9 = (Returned, w')"
    by (rule in_order_Returned_Cons)
  from r9 obtain w10 where s10: "to_sql_replace db_file ''player_history'' ?hist w9 = (Returned, w10)"
    and r10: "in_order
       [say (InsertedHistory (length (history_df (clock w) df))),
        create_summary_views db_file,
        say (DatabaseCreated db_file)] w10 = (Returned, w')"
    by (rule in_order_Returned_Cons)
  from r10 obtain w11 where s11: "say (InsertedHistory (length (history_df (clock w) df))) w10 = (Returned, w11)"
    and r11: "in_order
       [create_summary_views db_file,
        say (DatabaseCreated db_file)] w11 = (Returned, w')"
    by (rule in_order_Returned_Cons)
  from r11 obtain w12 where s12: "create_summary_views db_file w11 = (Returned, w12)"
    and r12: "in_order
       [say (DatabaseCreated db_file)] w12 = (Returned, w')"
    by (rule in_order_Returned_Cons)
  from r12 obtain w13 where s13: "say (DatabaseCreated db_file) w12 = (Returned, w13)"
    and r13: "in_order
       [] w13 = (Returned, w')"
    by (rule in_order_Returned_Cons)
  from r13 have e: "w13 = w'" by simp
  have g6: "tables (connect db_file w6) ''games'' = Some (map frame_column [''appid'', ''game_name''])"
    using s6 by (rule to_sql_replace_table)
  have c9: "connect db_file w9 = connect db_file w6"
    using say_connect [OF s7] say_connect [OF s8] add_year_and_month_num_Returned [OF s9]
    by simp
  have h10: "tables (connect db_file w10) ''player_history'' = Some (map frame_column ?hist)"
    using s10 by (rule to_sql_replace_table)
  have "tables (connect db_file w10) ''games'' = tables (connect db_file w9) ''games''"
    using s10 by (rule to_sql_replace_other_table) simp
  with g6 c9 have g10: "tables (connect db_file w10) ''games''
                          = Some (map frame_column [''appid'', ''game_name''])"
    by simp
  have "tables (connect db_file w') = tables (connect db_file w10)"
    using say_connect [OF s11] create_summary_views_keeps_tables [OF s12] say_connect [OF s13] e
    by simp
  with g10 h10 have
    g: "tables (connect db_file w') ''games'' = Some (map frame_column [''appid'', ''game_name''])"
    and h: "tables (connect db_file w') ''player_history'' = Some (map frame_column ?hist)"
    by simp_all
  from h frame_columns_not_stated have "\<not> conforms_to_stated_schema (connect db_file w')"
    by (simp add: conforms_to_stated_schema_def)
  with g h show ?thesis by blast
qed

lemma create_database_schema_conforms:
  assumes "databases w conn = None"
  shows "fst (create_database_schema conn w) = Returned
       \<and> conforms_to_stated_schema (connect conn (snd (create_database_schema conn w)))"
  using assms
  by (simp add: create_database_schema_def execute_def connect_def empty_database_def
        create_table_if_not_exists_def create_index_if_not_exists_def say_def
        player_history_columns_def games_columns_def declared_def
        conforms_to_stated_schema_def stated_games_table_def stated_player_history_table_def
        indexed_columns_def)

section \<open>The claims about the Store Loader\<close>

text \<open>
  Claim C7. The parser maps \<^verbatim>\<open>"July 2025"\<close> to (2025, 7) and a label that contains
  \<^verbatim>\<open>"Last 30 Days"\<close> to the current year and month, as the claim says. The claim also
  says that every string that is neither a recognized month name with a year nor a
  rolling-30-days label is mapped to \<open>(None, None)\<close>, so that lines 103 and 104 (``Remove
  rows with invalid dates'') drop its row. The code misses that for a label whose first
  word is no month name and whose second word is a number: the default of line 61 gives
  it month 1, and its row stays in the detail table as a January.
\<close>

theorem parse_month_year_unknown_month_is_january:
  "parse_month_year (2026, 11) ''July 2025'' = (Some 2025, Some 7)
   \<and> parse_month_year (2026, 11) ''Last 30 Days'' = (Some 2026, Some 11)
   \<and> \<not> month_name_plus_year ''Smarch 2025''
   \<and> \<not> rolling_label ''Smarch 2025''
   \<and> parse_month_year (2026, 11) ''Smarch 2025'' = (Some 2025, Some 1)
   \<and> history_df (2026, 11) [obs 1 ''Arena'' ''Smarch 2025'' 900]
       = [obs 1 ''Arena'' ''Smarch 2025'' 900]"
proof -
  have p: "parse_month_year (2026, 11) ''Smarch 2025'' = (Some 2025, Some 1)"
    by code_simp
  have 1: "parse_month_year (2026, 11) ''July 2025'' = (Some 2025, Some 7)"
    by code_simp
  have 2: "parse_month_year (2026, 11) ''Last 30 Days'' = (Some 2026, Some 11)"
    by code_simp
  have 3: "\<not> month_name_plus_year ''Smarch 2025'' \<and> \<not> rolling_label ''Smarch 2025''"
    by code_simp
  have 4: "history_df (2026, 11) [obs 1 ''Arena'' ''Smarch 2025'' 900]
             = [obs 1 ''Arena'' ''Smarch 2025'' 900]"
    by (simp add: history_df_def obs_def p)
  from 1 2 3 p 4 show ?thesis by blast
qed

text \<open>
  Claim C8, as stated: with the CSV file missing the import ends the process. It returns
  to its caller.
\<close>

theorem missing_csv_import_returns_counterexample:
  "csv_files sample_world ''steam_data.csv'' = None
   \<and> fst (import_csv_to_sqlite ''steam_data.csv'' ''steam_data.db'' sample_world) = Returned
   \<and> fst (import_csv_to_sqlite ''steam_data.csv'' ''steam_data.db'' sample_world) \<noteq> Exited"
  by (simp add: import_csv_to_sqlite_def sample_world_def say_def)

text \<open>
  Claim C8, amended. When the CSV file is missing, the import prints one message, that
  the file was not found, and returns to its caller: nothing is read, no database is
  opened or written, and nothing else is printed.
\<close>

theorem missing_csv_message_and_return:
  assumes "csv_files w csv_file = None"
  shows "import_csv_to_sqlite csv_file db_file w
           = (Returned, w\<lparr>console := console w @ [CsvNotFound csv_file]\<rparr>)
       \<and> databases (snd (import_csv_to_sqlite csv_file db_file w)) = databases w
       \<and> csv_files (snd (import_csv_to_sqlite csv_file db_file w)) = csv_files w"
  using assms by (simp add: import_csv_to_sqlite_def say_def)

theorem missing_csv_message_and_return_witness:
  "csv_files sample_world ''steam_data.csv'' = None
   \<and> console (snd (import_csv_to_sqlite ''steam_data.csv'' ''steam_data.db'' sample_world))
       = [CsvNotFound ''steam_data.csv'']
   \<and> databases (snd (import_csv_to_sqlite ''steam_data.csv'' ''steam_data.db'' sample_world))
        ''steam_data.db'' = None"
proof -
  have h: "csv_files sample_world ''steam_data.csv'' = None"
    by (simp add: sample_world_def)
  from missing_csv_message_and_return [OF h, of "''steam_data.db''"] h show ?thesis
    by (simp add: sample_world_def)
qed

text \<open>
  Claim C9 says that after the import the store has the schema that
  \<^verbatim>\<open>create_database_schema\<close> declares. The import creates that schema (see
  \<open>create_database_schema_conforms\<close>) and then writes both tables with
  \<^verbatim>\<open>to_sql(..., if_exists='replace')\<close>, which drops them and the indexes with them.
  Whenever the import completes, \<^verbatim>\<open>games\<close> has the two columns and
  \<^verbatim>\<open>player_history\<close> the six columns of the frames, no key and no \<^verbatim>\<open>created_at\<close>,
  and the store does not conform to the stated schema.
\<close>

theorem completed_import_replaces_schema:
  assumes "csv_files w csv_file = Some df"
    and "import_csv_to_sqlite csv_file db_file w = (Returned, w')"
  shows "tables (connect db_file w') ''games'' = Some (map frame_column [''appid'', ''game_name''])
       \<and> tables (connect db_file w') ''player_history''
           = Some (map frame_column
               [''appid'', ''month'', ''avg_players'', ''peak_players'', ''year'', ''month_num''])
       \<and> \<not> conforms_to_stated_schema (connect db_file w')"
  using assms by (rule completed_import_schema)

theorem completed_import_replaces_schema_witness:
  "csv_files sample_world ''steam_top100_with_names.csv'' = Some sample_shared_name
   \<and> fst (import_csv_to_sqlite ''steam_top100_with_names.csv'' ''steam_top100_with_names.db''
            sample_world) = Returned
   \<and> tables (connect ''steam_top100_with_names.db''
        (snd (import_csv_to_sqlite ''steam_top100_with_names.csv''
                ''steam_top100_with_names.db'' sample_world))) ''games''
       = Some [frame_column ''appid'', frame_column ''game_name'']
   \<and> tables (connect ''steam_top100_with_names.db''
        (snd (import_csv_to_sqlite ''steam_top100_with_names.csv''
                ''steam_top100_with_names.db'' sample_world))) ''player_history''
       = Some [frame_column ''appid'', frame_column ''month'', frame_column ''avg_players'',
               frame_column ''peak_players'', frame_column ''year'', frame_column ''month_num'']
   \<and> indexes (connect ''steam_top100_with_names.db''
        (snd (import_csv_to_sqlite ''steam_top100_with_names.csv''
                ''steam_top100_with_names.db'' sample_world))) = []
   \<and> \<not> conforms_to_stated_schema (connect ''steam_top100_with_names.db''
        (snd (import_csv_to_sqlite ''steam_top100_with_names.csv''
                ''steam_top100_with_names.db'' sample_world)))"
proof -
  define w' where "w' = snd (import_csv_to_sqlite ''steam_top100_with_names.csv''
                ''steam_top100_with_names.db'' sample_world)"
  have c: "csv_files sample_world ''steam_top100_with_names.csv'' = Some sample_shared_name"
    by (simp add: sample_world_def)
  have r: "fst (import_csv_to_sqlite ''steam_top100_with_names.csv''
             ''steam_top100_with_names.db'' sample_world) = Returned"
    by code_simp
  then have "import_csv_to_sqlite ''steam_top100_with_names.csv''
               ''steam_top100_with_names.db'' sample_world = (Returned, w')"
    unfolding w'_def by (simp add: prod_eq_iff)
  from completed_import_replaces_schema [OF c this]
  have t: "tables (connect ''steam_top100_with_names.db'' w') ''games''
             = Some [frame_column ''appid'', frame_column ''game_name'']
       \<and> tables (connect ''steam_top100_with_names.db'' w') ''player_history''
           = Some [frame_column ''appid'', frame_column ''month'', frame_column ''avg_players'',
               frame_column ''peak_players'', frame_column ''year'', frame_column ''month_num'']
       \<and> \<not> conforms_to_stated_schema (connect ''steam_top100_with_names.db'' w')"
    by simp
  have i: "indexes (connect ''steam_top100_with_names.db'' w') = []"
    unfolding w'_def by code_simp
  from c r t i show ?thesis unfolding w'_def by blast
qed

end
